theory Spec2Isabelle
  imports Complex_Main "HOL-Library.Sublist" "HOL-Library.Log_Nat"
begin

section \<open>JavaScript values read and written by \<^verbatim>\<open>js/main.js\<close>\<close>

text \<open>
  The script is one immediately invoked function: two duration calculators over
  \<^verbatim>\<open>Date\<close>, and handlers that add and remove CSS class names on DOM elements.
  Integer-valued Numbers are \<^typ>\<open>int\<close>. The arithmetic of \<^verbatim>\<open>calculateYOE\<close> is done in
  doubles, modelled as the rationals they denote with each result rounded. The scroll
  offset \<^verbatim>\<open>window.scrollY\<close> (a double that may be fractional) and the two sums it
  enters are \<^typ>\<open>real\<close>, without rounding.
\<close>

subsection \<open>Number arithmetic\<close>

text \<open>
  A Number is an IEEE 754 double. \<open>to_double x\<close> is the double nearest to the rational
  \<open>x\<close>, a tie going to the even significand: with \<open>2\<^sup>e \<le> |x| < 2\<^sup>e\<^sup>+\<^sup>1\<close> it is the
  multiple of \<open>2\<^sup>e\<^sup>-\<^sup>5\<^sup>2\<close> nearest to \<open>x\<close>. This is the rounding of every magnitude in
  the normal range, between \<open>2\<^sup>-\<^sup>1\<^sup>0\<^sup>2\<^sup>2\<close> and \<open>2\<^sup>1\<^sup>0\<^sup>2\<^sup>4\<close>, where the values of
  \<^verbatim>\<open>calculateYOE\<close> lie (a time value is at most \<open>8.64 \<times> 10\<^sup>1\<^sup>5\<close> in magnitude). The
  operators \<^verbatim>\<open>-\<close>, \<^verbatim>\<open>*\<close>, \<^verbatim>\<open>/\<close> and \<^verbatim>\<open>+\<close> round the exact result.
\<close>

definition round_half_even :: "rat \<Rightarrow> int" where
  "round_half_even y =
     (let f = \<lfloor>y\<rfloor>; d = y - of_int f
      in if d < 1 / 2 then f else if 1 / 2 < d then f + 1 else if even f then f else f + 1)"

text \<open>For \<open>x > 0\<close>, the exponent \<open>e\<close> with \<open>2\<^sup>e \<le> x < 2\<^sup>e\<^sup>+\<^sup>1\<close>.\<close>

definition binade :: "rat \<Rightarrow> int" where
  "binade x =
     (let (p, q) = quotient_of x; d = bitlen p - bitlen q
      in if 2 powi d \<le> x then d else d - 1)"

definition to_double :: "rat \<Rightarrow> rat" where
  "to_double x =
     (if x = 0 then 0
      else let a = \<bar>x\<bar>; u = 2 powi (binade a - 52)
           in sgn x * of_int (round_half_even (a / u)) * u)"

definition Number_sub :: "rat \<Rightarrow> rat \<Rightarrow> rat" where
  "Number_sub a b = to_double (a - b)"

definition Number_mul :: "rat \<Rightarrow> rat \<Rightarrow> rat" where
  "Number_mul a b = to_double (a * b)"

definition Number_div :: "rat \<Rightarrow> rat \<Rightarrow> rat" where
  "Number_div a b = to_double (a / b)"

definition Number_add :: "rat \<Rightarrow> rat \<Rightarrow> rat" where
  "Number_add a b = to_double (a + b)"

subsection \<open>Number to String\<close>

text \<open>
  \<^verbatim>\<open>n + "yr"\<close> converts the integer-valued Number \<^verbatim>\<open>n\<close> to its decimal digits, with a
  leading minus sign below zero (every value here is far below the \<open>10\<^sup>2\<^sup>1\<close> at which
  JavaScript switches to exponent notation).
\<close>

fun nat_digits :: "nat \<Rightarrow> string" where
  "nat_digits n =
     (if n < 10 then [''0123456789'' ! n]
      else nat_digits (n div 10) @ [''0123456789'' ! (n mod 10)])"

declare nat_digits.simps [simp del]

definition Number_toString :: "int \<Rightarrow> string" where
  "Number_toString i = (if i < 0 then ''-'' @ nat_digits (nat (- i)) else nat_digits (nat i))"

subsection \<open>Array.prototype.filter(Boolean) and join\<close>

text \<open>A string is falsy exactly when it is empty.\<close>

definition filter_Boolean :: "string list \<Rightarrow> string list" where
  "filter_Boolean xs = filter (\<lambda>s. s \<noteq> []) xs"

fun join :: "string \<Rightarrow> string list \<Rightarrow> string" where
  "join sep [] = []"
| "join sep [x] = x"
| "join sep (x # y # ys) = x @ sep @ join sep (y # ys)"

subsection \<open>Date\<close>

text \<open>
  A \<^verbatim>\<open>Date\<close> as the script observes it: the time value (milliseconds since the epoch,
  what \<^verbatim>\<open>now - fiveYearMilestone\<close> subtracts) and the local-time getters
  \<^verbatim>\<open>getFullYear()\<close> and \<^verbatim>\<open>getMonth()\<close>. ECMAScript returns a month in \<open>0..11\<close>.
\<close>

record js_date =
  timeValue :: int
  getFullYear :: int
  getMonth :: int

definition valid_date :: "js_date \<Rightarrow> bool" where
  "valid_date d = (0 \<le> getMonth d \<and> getMonth d \<le> 11)"

text \<open>The time value of a \<^verbatim>\<open>Date\<close> is an integer of magnitude at most \<open>8.64 \<times> 10\<^sup>1\<^sup>5\<close>.\<close>

definition valid_time :: "js_date \<Rightarrow> bool" where
  "valid_time d = (\<bar>timeValue d\<bar> \<le> 8640000000000000)"

subsection \<open>CONFIG\<close>

text \<open>
  \<^verbatim>\<open>new Date(2024, 8, 10)\<close> and \<^verbatim>\<open>new Date(2022, 11, 1)\<close> are local midnights, so their
  time values depend on the time zone: the argument is \<^verbatim>\<open>getTimezoneOffset()\<close> of that
  date, in minutes. 2024-09-10T00:00Z is 1725926400000 and 2022-12-01T00:00Z is
  1669852800000.
\<close>

definition yoeStartDate :: "int \<Rightarrow> js_date" where
  "yoeStartDate tzo =
     \<lparr>timeValue = 1725926400000 + tzo * 60000, getFullYear = 2024, getMonth = 8\<rparr>"

definition crunchrStartDate :: "int \<Rightarrow> js_date" where
  "crunchrStartDate tzo =
     \<lparr>timeValue = 1669852800000 + tzo * 60000, getFullYear = 2022, getMonth = 11\<rparr>"

definition headerOffset :: int where
  "headerOffset = 100"

definition scrollThreshold :: int where
  "scrollThreshold = 50"

section \<open>Utilities\<close>

subsection \<open>calculateYOE\<close>

text \<open>\<^verbatim>\<open>1000 * 60 * 60 * 24 * 365.25\<close>, multiplied from the left.\<close>

definition ms_per_year :: rat where
  "ms_per_year = Number_mul (Number_mul (Number_mul (Number_mul 1000 60) 60) 24) 365.25"

text \<open>
  \<^verbatim>\<open>totalYears\<close>, the Number that is rendered; \<^verbatim>\<open>Math.floor\<close> returns an integer.
\<close>

definition calculateYOE_totalYears :: "int \<Rightarrow> js_date \<Rightarrow> int" where
  "calculateYOE_totalYears tzo now =
     (let fiveYearMilestone = yoeStartDate tzo;
          additionalMs =
            Number_sub (of_int (timeValue now)) (of_int (timeValue fiveYearMilestone));
          additionalYears = Number_div additionalMs ms_per_year
      in \<lfloor>Number_add 5 additionalYears\<rfloor>)"

definition calculateYOE :: "int \<Rightarrow> js_date \<Rightarrow> string" where
  "calculateYOE tzo now = Number_toString (calculateYOE_totalYears tzo now) @ ''+''"

text \<open>
  The specification's wording of the value: the elapsed milliseconds divided by a
  year of 365.25 days, as a rational number, without rounding.
\<close>

definition years_since_milestone :: "int \<Rightarrow> js_date \<Rightarrow> rat" where
  "years_since_milestone tzo now =
     rat_of_int (timeValue now - timeValue (yoeStartDate tzo)) / (365.25 * 86400000)"

subsection \<open>calculateCrunchrDuration\<close>

text \<open>The values of \<^verbatim>\<open>years\<close> and \<^verbatim>\<open>months\<close> after the borrow step.\<close>

definition crunchr_years_months :: "int \<Rightarrow> js_date \<Rightarrow> int \<times> int" where
  "crunchr_years_months tzo now =
     (let startDate = crunchrStartDate tzo;
          years = getFullYear now - getFullYear startDate;
          months = getMonth now - getMonth startDate
      in if months < 0 then (years - 1, months + 12) else (years, months))"

definition crunchr_yearStr :: "int \<Rightarrow> js_date \<Rightarrow> string" where
  "crunchr_yearStr tzo now =
     (let years = fst (crunchr_years_months tzo now)
      in if years > 0 then Number_toString years @ ''yr'' else '''')"

definition crunchr_monthStr :: "int \<Rightarrow> js_date \<Rightarrow> string" where
  "crunchr_monthStr tzo now =
     (let months = snd (crunchr_years_months tzo now)
      in if months > 0 then Number_toString months @ ''mo'' else '''')"

definition calculateCrunchrDuration :: "int \<Rightarrow> js_date \<Rightarrow> string" where
  "calculateCrunchrDuration tzo now =
     join '' '' (filter_Boolean [crunchr_yearStr tzo now, crunchr_monthStr tzo now])"

section \<open>The page\<close>

subsection \<open>Elements, class lists and the state the handlers mutate\<close>

text \<open>
  Elements are node identities. \<^verbatim>\<open>document_t\<close> holds what the script's queries return
  and the attributes it reads; none of them is written by the handlers modelled here
  (\<^verbatim>\<open>initSmartLinks\<close> rewrites only \<^verbatim>\<open>href\<close> values that start with \<^verbatim>\<open>/\<close>, before
  \<^verbatim>\<open>navLinks\<close> is queried, and is left out). A query that finds nothing returns
  \<^verbatim>\<open>null\<close>: \<open>None\<close>.
\<close>

type_synonym element = nat

record document_t =
  all_sections :: "element list"              \<comment> \<open>\<^verbatim>\<open>querySelectorAll("section")\<close>\<close>
  navLinks :: "element list"                  \<comment> \<open>\<^verbatim>\<open>querySelectorAll("nav a[href^='#']")\<close>\<close>
  sections :: "element list"                  \<comment> \<open>\<^verbatim>\<open>querySelectorAll("section[id]")\<close>\<close>
  getAttribute_href :: "element \<Rightarrow> string"
  getAttribute_id :: "element \<Rightarrow> string"
  tagName :: "element \<Rightarrow> string"
  isContentEditable :: "element \<Rightarrow> bool"
  yoeElement :: "element option"              \<comment> \<open>\<^verbatim>\<open>getElementById("yoe")\<close>\<close>
  crunchrDurationElement :: "element option"  \<comment> \<open>\<^verbatim>\<open>getElementById("crunchr-duration")\<close>\<close>
  yearElement :: "element option"             \<comment> \<open>\<^verbatim>\<open>getElementById("year")\<close>\<close>
  terminal :: "element option"                \<comment> \<open>\<^verbatim>\<open>getElementById("work-terminal")\<close>\<close>
  terminal_close :: "element option"
    \<comment> \<open>\<^verbatim>\<open>querySelector(".terminal-control.close")\<close> inside the terminal\<close>
  footerOrigin :: "element option"            \<comment> \<open>\<^verbatim>\<open>querySelector(".footer-origin")\<close>\<close>
  logo :: "element option"                    \<comment> \<open>\<^verbatim>\<open>querySelector(".logo")\<close>\<close>
  cornerLogo :: "element option"              \<comment> \<open>\<^verbatim>\<open>querySelector(".corner-logo")\<close>\<close>
  scroll_hint :: "element option"             \<comment> \<open>\<^verbatim>\<open>querySelector(".scroll-hint")\<close>\<close>

text \<open>
  The geometry a scroll handler reads: \<^verbatim>\<open>window.scrollY\<close>, \<^verbatim>\<open>window.innerHeight\<close>,
  \<^verbatim>\<open>document.body.offsetHeight\<close> and each section's \<^verbatim>\<open>offsetTop\<close> and
  \<^verbatim>\<open>offsetHeight\<close>.
\<close>

record window_t =
  scrollY :: real
  innerHeight :: int
  body_offsetHeight :: int
  offsetTop :: "element \<Rightarrow> int"
  offsetHeight :: "element \<Rightarrow> int"

text \<open>
  What the script writes: class lists (a \<^verbatim>\<open>DOMTokenList\<close> is a set of names for
  \<^verbatim>\<open>add\<close>, \<^verbatim>\<open>remove\<close>, \<^verbatim>\<open>toggle\<close> and \<^verbatim>\<open>contains\<close>), \<^verbatim>\<open>textContent\<close>, and
  the targets registered with the intersection observer.
\<close>

record dom_state =
  classList :: "element \<Rightarrow> string set"
  textContent :: "element \<Rightarrow> string"
  observed :: "element list"

definition classList_add :: "element \<Rightarrow> string \<Rightarrow> dom_state \<Rightarrow> dom_state" where
  "classList_add e c s = s\<lparr>classList := (classList s)(e := insert c (classList s e))\<rparr>"

definition classList_remove :: "element \<Rightarrow> string \<Rightarrow> dom_state \<Rightarrow> dom_state" where
  "classList_remove e c s = s\<lparr>classList := (classList s)(e := classList s e - {c})\<rparr>"

definition classList_contains :: "element \<Rightarrow> string \<Rightarrow> dom_state \<Rightarrow> bool" where
  "classList_contains e c s = (c \<in> classList s e)"

definition classList_toggle :: "element \<Rightarrow> string \<Rightarrow> dom_state \<Rightarrow> dom_state" where
  "classList_toggle e c s =
     (if classList_contains e c s then classList_remove e c s else classList_add e c s)"

definition set_textContent :: "element \<Rightarrow> string \<Rightarrow> dom_state \<Rightarrow> dom_state" where
  "set_textContent e t s = s\<lparr>textContent := (textContent s)(e := t)\<rparr>"

text \<open>\<^verbatim>\<open>forEach\<close>: the callback runs on each item in order, on the state so far.\<close>

fun forEach :: "('a \<Rightarrow> 's \<Rightarrow> 's) \<Rightarrow> 'a list \<Rightarrow> 's \<Rightarrow> 's" where
  "forEach f [] s = s"
| "forEach f (x # xs) s = forEach f xs (f x s)"

datatype error = TypeError

subsection \<open>Dynamic content\<close>

text \<open>
  The values the page load reads from its environment: the time zone offsets of the
  two configured dates, the three \<^verbatim>\<open>new Date()\<close> readings, and the geometry at load.
\<close>

record environment =
  tzo_yoe :: int
  tzo_crunchr :: int
  now_yoe :: js_date
  now_crunchr :: js_date
  now_year :: js_date
  window_at_load :: window_t

definition dynamic_content :: "document_t \<Rightarrow> environment \<Rightarrow> dom_state \<Rightarrow> dom_state" where
  "dynamic_content d env s =
     (let s1 = (case yoeElement d of
                  None \<Rightarrow> s
                | Some e \<Rightarrow> set_textContent e (calculateYOE (tzo_yoe env) (now_yoe env)) s);
          s2 = (case crunchrDurationElement d of
                  None \<Rightarrow> s1
                | Some e \<Rightarrow>
                    set_textContent e
                      (calculateCrunchrDuration (tzo_crunchr env) (now_crunchr env)) s1)
      in case yearElement d of
           None \<Rightarrow> s2
         | Some e \<Rightarrow> set_textContent e (Number_toString (getFullYear (now_year env))) s2)"

subsection \<open>Intersection observer\<close>

text \<open>An entry is its \<^verbatim>\<open>target\<close> and \<^verbatim>\<open>isIntersecting\<close>.\<close>

definition observer_callback :: "(element \<times> bool) list \<Rightarrow> dom_state \<Rightarrow> dom_state" where
  "observer_callback entries s =
     forEach (\<lambda>entry s. if snd entry then classList_add (fst entry) ''visible'' s else s)
       entries s"

definition observe :: "element \<Rightarrow> dom_state \<Rightarrow> dom_state" where
  "observe e s = s\<lparr>observed := observed s @ [e]\<rparr>"

definition observe_sections :: "document_t \<Rightarrow> dom_state \<Rightarrow> dom_state" where
  "observe_sections d s =
     forEach (\<lambda>section s. if \<not> classList_contains section ''visible'' s then observe section s
                           else s)
       (all_sections d) s"

subsection \<open>Navigation\<close>

definition mark_link :: "document_t \<Rightarrow> string \<Rightarrow> element \<Rightarrow> dom_state \<Rightarrow> dom_state" where
  "mark_link d sectionId link s =
     (let s1 = classList_remove link ''active'' s
      in if getAttribute_href d link = ''#'' @ sectionId then classList_add link ''active'' s1
         else s1)"

definition in_section :: "window_t \<Rightarrow> real \<Rightarrow> element \<Rightarrow> bool" where
  "in_section w scrollPos section =
     (let sectionTop = offsetTop w section;
          sectionHeight = offsetHeight w section
      in scrollPos \<ge> real_of_int sectionTop \<and> scrollPos < real_of_int (sectionTop + sectionHeight))"

text \<open>The body of \<^verbatim>\<open>sections.forEach\<close>; the flag is \<^verbatim>\<open>activeFound\<close>.\<close>

definition check_section ::
  "document_t \<Rightarrow> window_t \<Rightarrow> real \<Rightarrow> element \<Rightarrow> dom_state \<times> bool \<Rightarrow> dom_state \<times> bool" where
  "check_section d w scrollPos section st =
     (if in_section w scrollPos section
      then (forEach (mark_link d (getAttribute_id d section)) (navLinks d) (fst st), True)
      else st)"

definition bottomReached :: "window_t \<Rightarrow> bool" where
  "bottomReached w =
     (real_of_int (innerHeight w) + scrollY w \<ge> real_of_int (body_offsetHeight w - scrollThreshold))"

definition clear_active :: "document_t \<Rightarrow> dom_state \<Rightarrow> dom_state" where
  "clear_active d s = forEach (\<lambda>link. classList_remove link ''active'') (navLinks d) s"

definition updateActiveNav :: "document_t \<Rightarrow> window_t \<Rightarrow> dom_state \<Rightarrow> dom_state" where
  "updateActiveNav d w s =
     (let scrollPos = scrollY w + real_of_int headerOffset
      in if bottomReached w then
           (let s1 = clear_active d s
            in case navLinks d of
                 [] \<Rightarrow> s1
               | _ # _ \<Rightarrow> classList_add (last (navLinks d)) ''active'' s1)
         else if sections d \<noteq> [] \<and> scrollPos < real_of_int (offsetTop w (hd (sections d))) then
           clear_active d s
         else
           (let st = forEach (check_section d w scrollPos) (sections d) (s, False)
            in if \<not> snd st then clear_active d (fst st) else fst st))"

subsection \<open>Handlers\<close>

record keyboard_event =
  key :: string
  metaKey :: bool
  ctrlKey :: bool

text \<open>
  \<^verbatim>\<open>String.prototype.toLowerCase\<close> on the letters \<open>A\<close> to \<open>Z\<close>. Strings here are byte
  strings; no other character is mapped to \<open>v\<close> by JavaScript either, so the
  comparison with \<^verbatim>\<open>"v"\<close> is the script's.
\<close>

definition char_toLowerCase :: "char \<Rightarrow> char" where
  "char_toLowerCase c =
     (let n = (of_char c :: nat) in if 65 \<le> n \<and> n \<le> 90 then char_of (n + 32) else c)"

definition toLowerCase :: "string \<Rightarrow> string" where
  "toLowerCase s = map char_toLowerCase s"

text \<open>
  The keydown listener, registered when \<^verbatim>\<open>cornerLogo\<close> exists. The second argument is
  \<^verbatim>\<open>document.activeElement\<close> when the event fires; \<^verbatim>\<open>&&\<close> evaluates left to right and
  stops at the first false operand, and reading \<^verbatim>\<open>tagName\<close> of \<^verbatim>\<open>null\<close> throws.
\<close>

definition keydown_handler ::
  "document_t \<Rightarrow> element \<Rightarrow> keyboard_event \<Rightarrow> element option \<Rightarrow> dom_state \<Rightarrow> error + dom_state" where
  "keydown_handler d cl e activeElement s =
     (if toLowerCase (key e) = ''v'' \<and> \<not> metaKey e \<and> \<not> ctrlKey e then
        (case activeElement of
           None \<Rightarrow> Inl TypeError
         | Some a \<Rightarrow>
             if tagName d a \<noteq> ''INPUT'' \<and> tagName d a \<noteq> ''TEXTAREA'' \<and> \<not> isContentEditable d a
             then Inr (classList_add cl ''pressed'' s)
             else Inr s)
      else Inr s)"

definition keyup_handler :: "element \<Rightarrow> keyboard_event \<Rightarrow> dom_state \<Rightarrow> dom_state" where
  "keyup_handler cl e s =
     (if toLowerCase (key e) = ''v'' then classList_remove cl ''pressed'' s else s)"

definition scroll_hint_handler :: "document_t \<Rightarrow> window_t \<Rightarrow> dom_state \<Rightarrow> dom_state" where
  "scroll_hint_handler d w s =
     (case scroll_hint d of
        None \<Rightarrow> s
      | Some hint \<Rightarrow>
          if scrollY w > real_of_int scrollThreshold then classList_add hint ''hidden'' s else s)"

text \<open>
  The events the script listens to. Timers are events of their own: the callback of
  \<^verbatim>\<open>setTimeout\<close> in the corner logo's click handler, and the one of the footnote (which
  only scrolls). \<^verbatim>\<open>scrollTo\<close>, \<^verbatim>\<open>preventDefault\<close> and \<^verbatim>\<open>stopPropagation\<close> change no
  class list; a scroll they cause arrives as a later \<open>Scroll\<close>.
\<close>

datatype event =
    Scroll window_t
  | Intersection "(element \<times> bool) list"
  | CloseButtonClick
  | FooterOriginClick
  | FootnoteTimeout
  | LogoClick
  | KeyDown keyboard_event "element option"
  | KeyUp keyboard_event
  | CornerLogoClick
  | CornerLogoTimeout

text \<open>
  A listener exists only where the script registered it: the close button's when
  \<^verbatim>\<open>terminal?.querySelector(...)\<close> found one, the others when their element exists.
  On \<open>Scroll\<close>, \<^verbatim>\<open>updateActiveNav\<close> runs before the scroll hint's listener, in the order
  of registration.
\<close>

fun handle :: "document_t \<Rightarrow> event \<Rightarrow> dom_state \<Rightarrow> error + dom_state" where
  "handle d (Scroll w) s = Inr (scroll_hint_handler d w (updateActiveNav d w s))"
| "handle d (Intersection entries) s = Inr (observer_callback entries s)"
| "handle d CloseButtonClick s =
     (case terminal d of
        None \<Rightarrow> Inr s
      | Some t \<Rightarrow>
          (case terminal_close d of
             None \<Rightarrow> Inr s
           | Some closeButton \<Rightarrow> Inr (classList_add t ''hidden'' s)))"
| "handle d FooterOriginClick s =
     (case footerOrigin d of
        None \<Rightarrow> Inr s
      | Some this \<Rightarrow> Inr (classList_toggle this ''expanded'' s))"
| "handle d FootnoteTimeout s = Inr s"
| "handle d LogoClick s = Inr s"
| "handle d (KeyDown e activeElement) s =
     (case cornerLogo d of
        None \<Rightarrow> Inr s
      | Some cl \<Rightarrow> keydown_handler d cl e activeElement s)"
| "handle d (KeyUp e) s =
     (case cornerLogo d of
        None \<Rightarrow> Inr s
      | Some cl \<Rightarrow> Inr (keyup_handler cl e s))"
| "handle d CornerLogoClick s =
     (case cornerLogo d of
        None \<Rightarrow> Inr s
      | Some cl \<Rightarrow> Inr (classList_add cl ''pressed'' s))"
| "handle d CornerLogoTimeout s =
     (case cornerLogo d of
        None \<Rightarrow> Inr s
      | Some cl \<Rightarrow> Inr (classList_remove cl ''pressed'' s))"

text \<open>
  An exception thrown by a listener ends that listener and the page goes on; the
  keydown listener, the only one that can throw, has written nothing by then.
\<close>

definition step :: "document_t \<Rightarrow> event \<Rightarrow> dom_state \<Rightarrow> dom_state" where
  "step d ev s = (case handle d ev s of Inl err \<Rightarrow> s | Inr s' \<Rightarrow> s')"

fun run :: "document_t \<Rightarrow> event list \<Rightarrow> dom_state \<Rightarrow> dom_state" where
  "run d [] s = s"
| "run d (ev # evs) s = run d evs (step d ev s)"

text \<open>The top-level statements of the script, in order, on the markup's state.\<close>

definition page_load :: "document_t \<Rightarrow> environment \<Rightarrow> dom_state \<Rightarrow> dom_state" where
  "page_load d env s =
     updateActiveNav d (window_at_load env) (observe_sections d (dynamic_content d env s))"

text \<open>The nav links that carry the class \<^verbatim>\<open>active\<close>.\<close>

definition active_links :: "document_t \<Rightarrow> dom_state \<Rightarrow> element list" where
  "active_links d s = filter (\<lambda>link. classList_contains link ''active'' s) (navLinks d)"

section \<open>Notions used to state the properties\<close>

text \<open>
  These are not in the script. \<open>marked tgt links s s'\<close> relates a state to a later one
  in which exactly the \<open>links\<close> selected by \<open>tgt\<close> carry \<^verbatim>\<open>active\<close> and nothing else has
  changed; \<open>current_section\<close> is the last section, in document order, whose span holds
  the offset scroll position; \<open>active_after\<close> is the link selection that
  \<^verbatim>\<open>updateActiveNav\<close> is proved to leave behind.
\<close>

definition marked :: "(element \<Rightarrow> bool) \<Rightarrow> element list \<Rightarrow> dom_state \<Rightarrow> dom_state \<Rightarrow> bool" where
  "marked tgt links s s' \<longleftrightarrow>
     (\<forall>x. classList s' x =
        (if x \<in> set links
         then (if tgt x then insert ''active'' (classList s x) else classList s x - {''active''})
         else classList s x)) \<and>
     textContent s' = textContent s \<and> observed s' = observed s"

definition current_section :: "document_t \<Rightarrow> window_t \<Rightarrow> element option" where
  "current_section d w =
     (case filter (in_section w (scrollY w + real_of_int headerOffset)) (sections d) of
        [] \<Rightarrow> None
      | m # ms \<Rightarrow> Some (last (m # ms)))"

definition active_after :: "document_t \<Rightarrow> window_t \<Rightarrow> element \<Rightarrow> bool" where
  "active_after d w link =
     (if bottomReached w then navLinks d \<noteq> [] \<and> link = last (navLinks d)
      else if sections d \<noteq> [] \<and>
              scrollY w + real_of_int headerOffset < real_of_int (offsetTop w (hd (sections d)))
      then False
      else (case current_section d w of
              None \<Rightarrow> False
            | Some section \<Rightarrow> getAttribute_href d link = ''#'' @ getAttribute_id d section))"

subsection \<open>Sample pages\<close>

text \<open>
  A page in the shape the script expects: three nav links to three sections with ids
  (elements 10 to 12), a fourth section without id, a corner logo (20), a scroll hint
  (21) and the text targets (30 to 32); the body is element 1 and element 40 is a text
  input.
\<close>

definition demo_doc :: document_t where
  "demo_doc =
     \<lparr>all_sections = [10, 11, 12, 13], navLinks = [2, 3, 4], sections = [10, 11, 12],
      getAttribute_href =
        (\<lambda>e. if e = 2 then ''#about'' else if e = 3 then ''#work''
             else if e = 4 then ''#contact'' else []),
      getAttribute_id =
        (\<lambda>e. if e = 10 then ''about'' else if e = 11 then ''work''
             else if e = 12 then ''contact'' else []),
      tagName = (\<lambda>e. if e = 1 then ''BODY'' else if e = 40 then ''INPUT'' else ''DIV''),
      isContentEditable = (\<lambda>e. False),
      yoeElement = Some 30, crunchrDurationElement = Some 31, yearElement = Some 32,
      terminal = None, terminal_close = None, footerOrigin = None, logo = None,
      cornerLogo = Some 20, scroll_hint = Some 21\<rparr>"

text \<open>The same page with a second nav link to the first section.\<close>

definition dup_doc :: document_t where
  "dup_doc =
     demo_doc\<lparr>navLinks := [2, 3, 4, 5],
       getAttribute_href :=
         (\<lambda>e. if e = 2 \<or> e = 5 then ''#about'' else if e = 3 then ''#work''
              else if e = 4 then ''#contact'' else [])\<rparr>"

text \<open>
  A viewport 800 high on a body 3000 high, scrolled to \<open>y\<close>; the sections with ids
  span 600 to 1400, 1400 to 2200 and 2200 to 2900.
\<close>

definition demo_window :: "real \<Rightarrow> window_t" where
  "demo_window y =
     \<lparr>scrollY = y, innerHeight = 800, body_offsetHeight = 3000,
      offsetTop = (\<lambda>e. if e = 10 then 600 else if e = 11 then 1400
                       else if e = 12 then 2200 else 2900),
      offsetHeight = (\<lambda>e. if e = 12 then 700 else if e = 13 then 100 else 800)\<rparr>"

text \<open>
  A body no higher than the viewport: the bottom is reached without scrolling, while
  the offset scroll position 100 lies in the first section.
\<close>

definition short_window :: window_t where
  "short_window =
     \<lparr>scrollY = 0, innerHeight = 800, body_offsetHeight = 700,
      offsetTop = (\<lambda>e. if e = 10 then 0 else if e = 11 then 300
                       else if e = 12 then 500 else 650),
      offsetHeight = (\<lambda>e. if e = 10 then 300 else if e = 11 then 200
                          else if e = 12 then 150 else 50)\<rparr>"

definition blank_state :: dom_state where
  "blank_state = \<lparr>classList = (\<lambda>e. {}), textContent = (\<lambda>e. []), observed = []\<rparr>"

text \<open>A state in which the first section is already revealed and two links are active.\<close>

definition stale_state :: dom_state where
  "stale_state =
     \<lparr>classList = (\<lambda>e. if e = 10 then {''visible''} else if e = 2 \<or> e = 3 then {''active''}
                        else {}),
      textContent = (\<lambda>e. []), observed = []\<rparr>"

definition demo_env :: environment where
  "demo_env =
     \<lparr>tzo_yoe = - 120, tzo_crunchr = - 60,
      now_yoe = \<lparr>timeValue = 1767225600000, getFullYear = 2026, getMonth = 0\<rparr>,
      now_crunchr = \<lparr>timeValue = 1767225600000, getFullYear = 2026, getMonth = 0\<rparr>,
      now_year = \<lparr>timeValue = 1767225600000, getFullYear = 2026, getMonth = 0\<rparr>,
      window_at_load = demo_window 0\<rparr>"

definition demo_events :: "event list" where
  "demo_events =
     [Intersection [(10, True), (11, False)],
      Scroll (demo_window 700),
      KeyDown \<lparr>key = ''v'', metaKey = False, ctrlKey = False\<rparr> (Some 1),
      KeyUp \<lparr>key = ''v'', metaKey = False, ctrlKey = False\<rparr>,
      Intersection [(10, False)],
      CornerLogoClick,
      Scroll (demo_window 2300),
      CornerLogoTimeout]"

section \<open>Auxiliary facts\<close>

subsection \<open>Rounding to a double\<close>

lemma rhe_ge: "of_int N \<le> y \<Longrightarrow> N \<le> round_half_even y"
proof -
  assume "of_int N \<le> y"
  then have "N \<le> \<lfloor>y\<rfloor>" by (simp add: le_floor_iff)
  then show ?thesis by (simp add: round_half_even_def Let_def)
qed

lemma rhe_le: "y \<le> of_int N \<Longrightarrow> round_half_even y \<le> N"
proof (cases "y = of_int N")
  case True
  then show ?thesis by (simp add: round_half_even_def)
next
  case False
  assume "y \<le> of_int N"
  with False have "y < of_int N" by simp
  then have "\<lfloor>y\<rfloor> < N" by (simp add: floor_less_iff)
  then show ?thesis by (simp add: round_half_even_def Let_def)
qed

lemma rhe_mono: "y \<le> z \<Longrightarrow> round_half_even y \<le> round_half_even z"
proof -
  assume yz: "y \<le> z"
  then have f: "\<lfloor>y\<rfloor> \<le> \<lfloor>z\<rfloor>" by (rule floor_mono)
  show ?thesis
  proof (cases "\<lfloor>y\<rfloor> = \<lfloor>z\<rfloor>")
    case True
    with yz have "y - of_int \<lfloor>y\<rfloor> \<le> z - of_int \<lfloor>z\<rfloor>" by simp
    with True show ?thesis by (auto simp: round_half_even_def Let_def)
  next
    case False
    with f have "\<lfloor>y\<rfloor> + 1 \<le> \<lfloor>z\<rfloor>" by simp
    moreover have "round_half_even y \<le> \<lfloor>y\<rfloor> + 1" by (simp add: round_half_even_def Let_def)
    moreover have "\<lfloor>z\<rfloor> \<le> round_half_even z" by (simp add: round_half_even_def Let_def)
    ultimately show ?thesis by linarith
  qed
qed

lemma pow2_pos [simp]: "0 < (2::rat) powi e"
  by (simp add: power_int_def)

lemma pow2_mono: "a \<le> b \<Longrightarrow> (2::rat) powi a \<le> 2 powi b"
  by (rule power_int_increasing) simp_all

lemma pow2_less_iff: "(2::rat) powi a < 2 powi b \<longleftrightarrow> a < b"
proof
  assume "(2::rat) powi a < 2 powi b"
  then show "a < b" using pow2_mono [of b a] by (cases "a < b") simp_all
next
  assume "a < b"
  then show "(2::rat) powi a < 2 powi b" by (rule power_int_strict_increasing) simp
qed

lemma pow2_add: "(2::rat) powi (a + b) = 2 powi a * 2 powi b"
  by (simp add: power_int_add)

lemma pow2_diff: "(2::rat) powi (a - b) = 2 powi a / 2 powi b"
  by (simp add: power_int_diff)

lemma binade_bounds:
  assumes "0 < x"
  shows "2 powi binade x \<le> x" and "x < 2 powi (binade x + 1)"
proof -
  obtain p q where pq: "quotient_of x = (p, q)" by (cases "quotient_of x")
  then have q: "0 < q" by (rule quotient_of_denom_pos)
  from pq have x: "x = of_int p / of_int q" by (rule quotient_of_div)
  with assms q have p: "0 < p" by (simp add: zero_less_divide_iff)
  let ?d = "bitlen p - bitlen q"
  from bitlen_bounds [OF p] have "rat_of_int p < of_int (2 ^ nat (bitlen p))" 
    by (simp only: of_int_less_iff)
  then have p_hi: "rat_of_int p < 2 powi bitlen p"
    using bitlen_nonneg [of p] by (simp add: power_int_def)
  from bitlen_bounds [OF q] have "rat_of_int (2 ^ nat (bitlen q - 1)) \<le> of_int q"
    by (simp only: of_int_le_iff)
  moreover from q have "1 \<le> bitlen q" using bitlen_ge_iff_power [of 1 q] by simp
  ultimately have q_lo: "2 powi (bitlen q - 1) \<le> rat_of_int q"
    by (simp add: power_int_def)
  from bitlen_bounds [OF p] have "rat_of_int (2 ^ nat (bitlen p - 1)) \<le> of_int p"
    by (simp only: of_int_le_iff)
  moreover from p have "1 \<le> bitlen p" using bitlen_ge_iff_power [of 1 p] by simp
  ultimately have p_lo: "2 powi (bitlen p - 1) \<le> rat_of_int p"
    by (simp add: power_int_def)
  from bitlen_bounds [OF q] have "rat_of_int q < of_int (2 ^ nat (bitlen q))" 
    by (simp only: of_int_less_iff)
  then have q_hi: "rat_of_int q < 2 powi bitlen q"
    using bitlen_nonneg [of q] by (simp add: power_int_def)
  have hi: "x < 2 powi (?d + 1)"
  proof -
    have "x * of_int q = of_int p" using x q by simp
    have "x < 2 powi bitlen p / of_int q" using p_hi q x by (simp add: divide_strict_right_mono)
    also have "\<dots> \<le> 2 powi bitlen p / 2 powi (bitlen q - 1)"
      using q_lo q by (intro divide_left_mono) simp_all
    also have "\<dots> = 2 powi (?d + 1)" by (simp add: pow2_diff [symmetric] algebra_simps)
    finally show ?thesis .
  qed
  have lo: "2 powi (?d - 1) \<le> x"
  proof -
    have "(2::rat) powi (?d - 1) = 2 powi (bitlen p - 1) / 2 powi bitlen q"
      by (simp add: pow2_diff [symmetric] algebra_simps)
    also have "\<dots> \<le> of_int p / 2 powi bitlen q"
      using p_lo by (intro divide_right_mono) simp_all
    also have "\<dots> \<le> of_int p / of_int q"
      using q_hi q p by (intro divide_left_mono) simp_all
    finally show ?thesis using x by simp
  qed
  have b: "binade x = (if 2 powi ?d \<le> x then ?d else ?d - 1)"
    by (simp add: binade_def pq Let_def)
  show "2 powi binade x \<le> x" using lo by (simp add: b)
  show "x < 2 powi (binade x + 1)" using hi by (auto simp: b not_le)
qed

lemma binade_unique:
  assumes "0 < x" and "2 powi e \<le> x" and "x < 2 powi (e + 1)"
  shows "binade x = e"
proof -
  from binade_bounds [OF assms(1)] assms(2,3)
  have "(2::rat) powi e < 2 powi (binade x + 1)" and "(2::rat) powi binade x < 2 powi (e + 1)"
    by simp_all
  then show ?thesis by (simp add: pow2_less_iff)
qed

lemma binade_mono:
  assumes "0 < x" and "x \<le> y"
  shows "binade x \<le> binade y"
proof -
  from assms have y: "0 < y" by simp
  from binade_bounds(1) [OF assms(1)] binade_bounds(2) [OF y] assms(2)
  have "(2::rat) powi binade x < 2 powi (binade y + 1)" by simp
  then show ?thesis by (simp add: pow2_less_iff)
qed

lemma to_double_pos:
  "0 < x \<Longrightarrow>
   to_double x = of_int (round_half_even (x / 2 powi (binade x - 52))) * 2 powi (binade x - 52)"
  by (simp add: to_double_def Let_def)

lemma to_double_zero [simp]: "to_double 0 = 0"
  by (simp add: to_double_def)

lemma pow2_52: "(2::rat) powi 52 = of_int (2 ^ 52)" and pow2_53: "(2::rat) powi 53 = of_int (2 ^ 53)"
  by simp_all

lemma to_double_range:
  assumes "0 < x"
  shows "2 powi binade x \<le> to_double x" and "to_double x \<le> 2 powi (binade x + 1)"
proof -
  let ?e = "binade x" and ?u = "(2::rat) powi (binade x - 52)"
  have u: "0 < ?u" by simp
  have lo: "2 powi ?e = of_int (2 ^ 52) * ?u"
    using pow2_add [of 52 "?e - 52"] by simp
  have hi: "2 powi (?e + 1) = of_int (2 ^ 53) * ?u"
    using pow2_add [of 53 "?e - 52"] by (simp add: add.commute)
  from binade_bounds(1) [OF assms] have "of_int (2 ^ 52) * ?u \<le> x" by (simp only: lo)
  then have "of_int (2 ^ 52) \<le> x / ?u" using u by (simp add: pos_le_divide_eq)
  then have "2 ^ 52 \<le> round_half_even (x / ?u)" by (rule rhe_ge)
  then have "rat_of_int (2 ^ 52) \<le> of_int (round_half_even (x / ?u))" by (simp only: of_int_le_iff)
  then have "of_int (2 ^ 52) * ?u \<le> of_int (round_half_even (x / ?u)) * ?u"
    using u by (simp only: mult_le_cancel_right_pos)
  then show "2 powi ?e \<le> to_double x" by (simp only: lo to_double_pos [OF assms])
  from binade_bounds(2) [OF assms] have "x \<le> of_int (2 ^ 53) * ?u" by (simp only: hi)
  then have "x / ?u \<le> of_int (2 ^ 53)" using u by (simp add: pos_divide_le_eq)
  then have "round_half_even (x / ?u) \<le> 2 ^ 53" by (rule rhe_le)
  then have "rat_of_int (round_half_even (x / ?u)) \<le> of_int (2 ^ 53)" by (simp only: of_int_le_iff)
  then have "of_int (round_half_even (x / ?u)) * ?u \<le> of_int (2 ^ 53) * ?u"
    using u by (simp only: mult_le_cancel_right_pos)
  then show "to_double x \<le> 2 powi (?e + 1)" by (simp only: hi to_double_pos [OF assms])
qed

lemma to_double_pos_pos: "0 < x \<Longrightarrow> 0 < to_double x"
  using to_double_range(1) [of x] pow2_pos [of "binade x"] by linarith

lemma to_double_mono:
  assumes "0 \<le> x" and "x \<le> y"
  shows "to_double x \<le> to_double y"
proof (cases "x = 0")
  case True
  show ?thesis
  proof (cases "y = 0")
    case True
    with \<open>x = 0\<close> show ?thesis by simp
  next
    case False
    with assms have "0 < y" by simp
    from to_double_pos_pos [OF this] True show ?thesis by simp
  qed
next
  case False
  with assms have x: "0 < x" and y: "0 < y" by simp_all
  from x assms(2) have e: "binade x \<le> binade y" by (rule binade_mono)
  show ?thesis
  proof (cases "binade x = binade y")
    case True
    let ?u = "(2::rat) powi (binade y - 52)"
    have "x / ?u \<le> y / ?u" using assms(2) by (simp add: divide_right_mono)
    then have "round_half_even (x / ?u) \<le> round_half_even (y / ?u)" by (rule rhe_mono)
    then have "rat_of_int (round_half_even (x / ?u)) * ?u \<le> of_int (round_half_even (y / ?u)) * ?u"
      by (simp add: mult_right_mono)
    then show ?thesis by (simp only: to_double_pos [OF x] to_double_pos [OF y] True)
  next
    case False
    with e have "binade x + 1 \<le> binade y" by simp
    then have "(2::rat) powi (binade x + 1) \<le> 2 powi binade y" by (rule pow2_mono)
    with to_double_range(2) [OF x] to_double_range(1) [OF y] show ?thesis by linarith
  qed
qed

text \<open>
  A fence is a positive double \<open>n \<times> 2\<^sup>j\<close> with \<open>n < 2\<^sup>5\<^sup>3\<close>: rounding never crosses it.
\<close>

lemma fence_multiple:
  assumes n: "0 < n" "n < 2 ^ 53" and ge: "2 powi e \<le> rat_of_int n * 2 powi j"
  shows "\<exists>N. rat_of_int n * 2 powi j = of_int N * 2 powi (e - 52)"
proof -
  from n(2) have "rat_of_int n < of_int (2 ^ 53)" by (simp only: of_int_less_iff)
  then have "rat_of_int n * 2 powi j < of_int (2 ^ 53) * 2 powi j"
    by (simp only: mult_less_cancel_right_pos pow2_pos)
  also have "rat_of_int (2 ^ 53) * 2 powi j = 2 powi (53 + j)"
    using pow2_add [of 53 j] by simp
  finally have "rat_of_int n * 2 powi j < 2 powi (53 + j)" .
  with ge have "(2::rat) powi e < 2 powi (53 + j)" by (rule le_less_trans)
  then have "e < 53 + j" by (simp add: pow2_less_iff)
  then have k: "0 \<le> j - (e - 52)" by simp
  have "(2::rat) powi j = 2 powi (j - (e - 52)) * 2 powi (e - 52)"
    by (simp add: pow2_add [symmetric])
  also have "(2::rat) powi (j - (e - 52)) = of_int (2 ^ nat (j - (e - 52)))"
    using k by (simp add: power_int_def)
  finally have "rat_of_int n * 2 powi j = of_int (n * 2 ^ nat (j - (e - 52))) * 2 powi (e - 52)"
    by simp
  then show ?thesis ..
qed

lemma to_double_le_fence:
  assumes x: "0 < x" and n: "0 < n" "n < 2 ^ 53" and le: "x \<le> rat_of_int n * 2 powi j"
  shows "to_double x \<le> rat_of_int n * 2 powi j"
proof -
  let ?g = "rat_of_int n * 2 powi j" and ?u = "(2::rat) powi (binade x - 52)"
  from binade_bounds(1) [OF x] le have "2 powi binade x \<le> ?g" by simp
  from fence_multiple [OF n this] obtain N where N: "?g = of_int N * ?u" by blast
  with le have "x / ?u \<le> of_int N" by (simp add: pos_divide_le_eq)
  then have "round_half_even (x / ?u) \<le> N" by (rule rhe_le)
  then have "rat_of_int (round_half_even (x / ?u)) * ?u \<le> of_int N * ?u"
    by (simp add: mult_right_mono)
  then show ?thesis by (simp only: to_double_pos [OF x] N)
qed

lemma fence_le_to_double:
  assumes x: "0 < x" and n: "0 < n" "n < 2 ^ 53" and le: "rat_of_int n * 2 powi j \<le> x"
  shows "rat_of_int n * 2 powi j \<le> to_double x"
proof (cases "2 powi binade x \<le> rat_of_int n * 2 powi j")
  case True
  let ?g = "rat_of_int n * 2 powi j" and ?u = "(2::rat) powi (binade x - 52)"
  from fence_multiple [OF n True] obtain N where N: "?g = of_int N * ?u" by blast
  with le have "of_int N \<le> x / ?u" by (simp add: pos_le_divide_eq)
  then have "N \<le> round_half_even (x / ?u)" by (rule rhe_ge)
  then have "of_int N * ?u \<le> rat_of_int (round_half_even (x / ?u)) * ?u"
    by (simp add: mult_right_mono)
  then show ?thesis by (simp only: to_double_pos [OF x] N)
next
  case False
  with to_double_range(1) [OF x] show ?thesis by linarith
qed

lemma to_double_fence:
  assumes "0 < n" and "n < 2 ^ 53"
  shows "to_double (rat_of_int n * 2 powi j) = rat_of_int n * 2 powi j"
proof -
  have "0 < rat_of_int n * 2 powi j" using assms(1) by simp
  from to_double_le_fence [OF this assms order_refl] fence_le_to_double [OF this assms order_refl]
  show ?thesis by (rule order_antisym)
qed

lemma to_double_of_int:
  assumes "0 \<le> n" and "n < 2 ^ 53"
  shows "to_double (rat_of_int n) = rat_of_int n"
proof (cases "n = 0")
  case True
  then show ?thesis by simp
next
  case False
  with assms have "0 < n" by simp
  from to_double_fence [OF this assms(2), of 0] show ?thesis by simp
qed

subsection \<open>The arithmetic of calculateYOE\<close>

lemma ms_per_year_eq: "ms_per_year = 31557600000"
  by code_simp

lemma to_double_nonneg: "0 \<le> x \<Longrightarrow> 0 \<le> to_double x"
  using to_double_mono [of 0 x] by simp

text \<open>\<^verbatim>\<open>totalYears\<close> as a function of the elapsed milliseconds.\<close>

lemma totalYears_unfold:
  "calculateYOE_totalYears tzo now =
     \<lfloor>to_double (5 + to_double (to_double
        (rat_of_int (timeValue now - timeValue (yoeStartDate tzo))) / 31557600000))\<rfloor>"
  by (simp add: calculateYOE_totalYears_def Let_def Number_sub_def Number_div_def Number_add_def
      ms_per_year_eq)

lemma yoe_chain_mono:
  assumes "0 \<le> a" and "a \<le> b"
  shows "to_double (5 + to_double (to_double (rat_of_int a) / 31557600000))
       \<le> to_double (5 + to_double (to_double (rat_of_int b) / 31557600000))"
proof -
  have 1: "to_double (rat_of_int a) \<le> to_double (rat_of_int b)"
    using assms by (intro to_double_mono) simp_all
  have 0: "0 \<le> to_double (rat_of_int a)" using assms by (intro to_double_nonneg) simp
  have 2: "to_double (to_double (rat_of_int a) / 31557600000)
      \<le> to_double (to_double (rat_of_int b) / 31557600000)"
    using 0 1 by (intro to_double_mono) (simp_all add: divide_right_mono)
  have 3: "0 \<le> to_double (to_double (rat_of_int a) / 31557600000)"
    using 0 by (intro to_double_nonneg) simp
  show ?thesis using 2 3 by (intro to_double_mono) simp_all
qed

lemma yoe_chain_zero: "to_double (5 + to_double (to_double (rat_of_int 0) / 31557600000)) = 5"
  using to_double_of_int [of 5] by simp

lemma yoe_chain_upper:
  assumes d: "0 \<le> d" and dc: "d + c \<le> (k + 1) * 31557600000" and c: "31557600000 \<le> c * 2 ^ j"
    and k: "0 \<le> k" and r: "(k + 6) * 2 ^ j \<le> 2 ^ 53" and d53: "d < 2 ^ 53" and j: "0 < j"
  shows "to_double (5 + to_double (to_double (rat_of_int d) / 31557600000)) < rat_of_int (k + 6)"
proof -
  let ?Y = "31557600000 :: rat"
  let ?x = "rat_of_int d / ?Y"
  let ?g = "rat_of_int ((k + 1) * 2 ^ j - 1) * 2 powi (- int j)"
  let ?h = "rat_of_int ((k + 6) * 2 ^ j - 1) * 2 powi (- int j)"
  have p: "(2::rat) powi (- int j) = 1 / 2 ^ j" by (simp add: power_int_def field_simps)
  have g: "?g = rat_of_int (k + 1) - 1 / 2 ^ j" by (simp add: p field_simps)
  have h: "?h = rat_of_int (k + 6) - 1 / 2 ^ j" by (simp add: p field_simps)
  have two: "(2::int) \<le> 2 ^ j" using j by (cases j) simp_all
  have m1: "1 * 2 ^ j \<le> (k + 1) * (2 ^ j :: int)" using k by (intro mult_right_mono) simp_all
  have m6: "(k + 1) * (2 ^ j :: int) \<le> (k + 6) * 2 ^ j" by (intro mult_right_mono) simp_all
  have ng: "0 < (k + 1) * 2 ^ j - 1" "(k + 1) * 2 ^ j - 1 < 2 ^ 53"
    using two m1 m6 r by linarith+
  have nh: "0 < (k + 6) * 2 ^ j - 1" "(k + 6) * 2 ^ j - 1 < 2 ^ 53"
    using two m1 m6 r by linarith+
  have x0: "0 \<le> ?x" using d by simp
  have "rat_of_int (d + c) \<le> rat_of_int ((k + 1) * 31557600000)"
    using dc by (simp only: of_int_le_iff)
  then have "rat_of_int d + rat_of_int c \<le> rat_of_int (k + 1) * ?Y" by simp
  then have x1: "?x \<le> rat_of_int (k + 1) - rat_of_int c / ?Y" by (simp add: field_simps)
  have "rat_of_int 31557600000 \<le> rat_of_int (c * 2 ^ j)" using c by (simp only: of_int_le_iff)
  then have "?Y \<le> rat_of_int c * 2 ^ j" by simp
  then have "1 / 2 ^ j \<le> rat_of_int c / ?Y" by (simp add: field_simps)
  with x1 have "?x \<le> rat_of_int (k + 1) - 1 / 2 ^ j" by linarith
  then have xg: "?x \<le> ?g" by (simp only: g)
  have "to_double (rat_of_int d) = rat_of_int d" using d d53 by (rule to_double_of_int)
  moreover have "to_double ?x \<le> to_double ?g" using x0 xg by (rule to_double_mono)
  moreover have "to_double ?g = ?g" using ng by (rule to_double_fence)
  ultimately have a: "to_double (to_double (rat_of_int d) / ?Y) \<le> ?g" by simp
  have "0 \<le> to_double ?x" using x0 by (rule to_double_nonneg)
  then have s0: "0 \<le> 5 + to_double ?x" by simp
  from a have "to_double (to_double (rat_of_int d) / ?Y) \<le> rat_of_int (k + 1) - 1 / 2 ^ j"
    by (simp only: g)
  then have "5 + to_double (to_double (rat_of_int d) / ?Y) \<le> rat_of_int (k + 6) - 1 / 2 ^ j"
    by simp
  then have "5 + to_double (to_double (rat_of_int d) / ?Y) \<le> ?h"
    by (simp only: h)
  then have "to_double (5 + to_double (to_double (rat_of_int d) / ?Y)) \<le> to_double ?h"
    using s0 \<open>to_double (rat_of_int d) = rat_of_int d\<close> by (intro to_double_mono) simp_all
  moreover have "to_double ?h = ?h" using nh by (rule to_double_fence)
  moreover have "rat_of_int (k + 6) - 1 / 2 ^ j < rat_of_int (k + 6)" by simp
  then have "?h < rat_of_int (k + 6)" by (simp only: h)
  ultimately show ?thesis by linarith
qed

lemma yoe_chain_lower:
  assumes d: "0 \<le> d" and kd: "k * 31557600000 \<le> d" and k: "0 \<le> k" "k + 5 < 2 ^ 53"
    and d53: "d < 2 ^ 53"
  shows "rat_of_int (k + 5) \<le> to_double (5 + to_double (to_double (rat_of_int d) / 31557600000))"
proof -
  let ?Y = "31557600000 :: rat"
  let ?x = "rat_of_int d / ?Y"
  have "rat_of_int (k * 31557600000) \<le> rat_of_int d" using kd by (simp only: of_int_le_iff)
  then have kx: "rat_of_int k \<le> ?x" by (simp add: field_simps)
  have k0: "0 \<le> rat_of_int k" using k by simp
  have "to_double (rat_of_int k) \<le> to_double ?x" using k0 kx by (rule to_double_mono)
  moreover have "to_double (rat_of_int k) = rat_of_int k" using k by (intro to_double_of_int) simp_all
  moreover have "to_double (rat_of_int d) = rat_of_int d" using d d53 by (rule to_double_of_int)
  ultimately have a: "rat_of_int k \<le> to_double (to_double (rat_of_int d) / ?Y)" by simp
  have "to_double (rat_of_int (k + 5)) \<le> to_double (5 + to_double (to_double (rat_of_int d) / ?Y))"
    using a k0 by (intro to_double_mono) simp_all
  moreover have "to_double (rat_of_int (k + 5)) = rat_of_int (k + 5)"
    using k by (intro to_double_of_int) simp_all
  ultimately show ?thesis by simp
qed

lemma yoe_chain_exact:
  assumes d: "0 \<le> d" and bound: "d < 8272509263999999"
  shows "\<lfloor>to_double (5 + to_double (to_double (rat_of_int d) / 31557600000))\<rfloor> =
     \<lfloor>5 + rat_of_int d / 31557600000\<rfloor>"
proof -
  let ?v = "to_double (5 + to_double (to_double (rat_of_int d) / 31557600000))"
  define k where "k = d div 31557600000"
  have k0: "0 \<le> k" using d by (simp add: k_def pos_imp_zdiv_nonneg_iff)
  have kd: "k * 31557600000 \<le> d" by (simp add: k_def)
  have dk: "d + 1 \<le> (k + 1) * 31557600000"
    using pos_mod_bound [of 31557600000 d] div_mult_mod_eq [of d 31557600000]
    by (simp add: k_def algebra_simps)
  have k_hi: "k \<le> 262139" using bound kd by linarith
  have d53: "d < 2 ^ 53" using bound by simp
  have lo: "rat_of_int (k + 5) \<le> ?v"
    using d kd k0 _ d53 by (rule yoe_chain_lower) (use k_hi in simp)
  have hi: "?v < rat_of_int (k + 6)"
  proof (cases "k \<le> 262138")
    case True
    then have "(k + 6) * 2 ^ 35 \<le> (2 ^ 53 :: int)" by simp
    with d dk k0 d53 show ?thesis by (intro yoe_chain_upper [where c = 1 and j = 35]) simp_all
  next
    case False
    with k_hi have k: "k = 262139" by simp
    from bound have "d + 2 \<le> (k + 1) * 31557600000" by (simp add: k)
    with d k0 d53 show ?thesis by (intro yoe_chain_upper [where c = 2 and j = 34]) (simp_all add: k)
  qed
  from lo hi have "\<lfloor>?v\<rfloor> = k + 5" by (simp add: floor_unique)
  moreover have "\<lfloor>5 + rat_of_int d / 31557600000\<rfloor> = 5 + k"
    using floor_divide_of_int_eq [of d 31557600000, where ?'a = rat] by (simp add: k_def)
  ultimately show ?thesis by simp
qed

subsection \<open>Decimal digits and the tenure string\<close>

text \<open>
  The defining equation of \<open>nat_digits\<close> as two conditional rules, which evaluate a
  numeral and leave a variable alone.
\<close>

lemma nat_digits_small: "n < 10 \<Longrightarrow> nat_digits n = [''0123456789'' ! n]"
  by (subst nat_digits.simps) simp

lemma nat_digits_big:
  "\<not> n < 10 \<Longrightarrow> nat_digits n = nat_digits (n div 10) @ [''0123456789'' ! (n mod 10)]"
  by (subst nat_digits.simps) simp

lemma digit_char_set: "n < 10 \<Longrightarrow> ''0123456789'' ! n \<in> set ''0123456789''"
  by (rule nth_mem) simp

lemma nat_digits_chars: "set (nat_digits n) \<subseteq> set ''0123456789''"
proof (induction n rule: nat_digits.induct)
  case (1 n)
  show ?case
  proof (cases "n < 10")
    case True
    then show ?thesis
      using digit_char_set [of n] by (subst nat_digits.simps) simp
  next
    case False
    have "n mod 10 < 10" by simp
    from digit_char_set [OF this] 1 [OF False] False show ?thesis
      by (subst nat_digits.simps) simp
  qed
qed

lemma nat_digits_nonempty: "nat_digits n \<noteq> []"
  by (subst nat_digits.simps) simp

lemma Number_toString_nonneg_chars: "0 \<le> i \<Longrightarrow> set (Number_toString i) \<subseteq> set ''0123456789''"
  using nat_digits_chars [of "nat i"] by (simp add: Number_toString_def)

lemma Number_toString_nonempty: "Number_toString i \<noteq> []"
  by (simp add: Number_toString_def nat_digits_nonempty)

lemma crunchr_format:
  "calculateCrunchrDuration tzo now =
     (let (years, months) = crunchr_years_months tzo now
      in if years > 0 \<and> months > 0
         then Number_toString years @ ''yr'' @ '' '' @ Number_toString months @ ''mo''
         else if years > 0 then Number_toString years @ ''yr''
         else if months > 0 then Number_toString months @ ''mo''
         else '''')"
  by (simp add: calculateCrunchrDuration_def filter_Boolean_def crunchr_yearStr_def
      crunchr_monthStr_def Let_def split_beta Number_toString_nonempty)

lemma no_minus: "CHR ''-'' \<notin> set (calculateCrunchrDuration tzo now)"
proof -
  obtain y m where ym: "crunchr_years_months tzo now = (y, m)" by (cases "crunchr_years_months tzo now")
  have a: "0 < y \<Longrightarrow> CHR ''-'' \<notin> set (Number_toString y)" 
    using Number_toString_nonneg_chars [of y] by auto
  have b: "0 < m \<Longrightarrow> CHR ''-'' \<notin> set (Number_toString m)" 
    using Number_toString_nonneg_chars [of m] by auto
  show ?thesis using a b by (simp add: crunchr_format ym)
qed

lemma months_range:
  "valid_date now \<Longrightarrow>
   0 \<le> snd (crunchr_years_months tzo now) \<and> snd (crunchr_years_months tzo now) \<le> 11"
  by (auto simp: valid_date_def crunchr_years_months_def crunchrStartDate_def Let_def)

lemma month_text_shape:
  assumes "1 \<le> m" and "m \<le> 11"
  shows "length (Number_toString m) = 1 \<or> Number_toString m = ''10'' \<or> Number_toString m = ''11''"
proof (cases "m < 10")
  case True
  with assms have "nat m < 10" by simp
  then have "nat_digits (nat m) = [''0123456789'' ! nat m]" by (rule nat_digits_small)
  with assms show ?thesis by (simp add: Number_toString_def)
next
  case False
  with assms have "m = 10 \<or> m = 11" by arith
  then show ?thesis by (auto simp: Number_toString_def nat_digits_small nat_digits_big)
qed

lemma month_label:
  assumes "1 \<le> m" and "m \<le> 11"
  shows "Number_toString m @ ''mo'' \<in>
     {''1mo'', ''2mo'', ''3mo'', ''4mo'', ''5mo'', ''6mo'', ''7mo'', ''8mo'', ''9mo'',
      ''10mo'', ''11mo''}"
proof -
  from assms have "m = 1 \<or> m = 2 \<or> m = 3 \<or> m = 4 \<or> m = 5 \<or> m = 6 \<or> m = 7 \<or> m = 8
      \<or> m = 9 \<or> m = 10 \<or> m = 11" by arith
  then show ?thesis
    by (elim disjE) (simp_all add: Number_toString_def nat_digits_small nat_digits_big)
qed

lemma no12:
  assumes "length M = 1 \<or> M = ''10'' \<or> M = ''11''"
  shows "\<not> sublist ''12mo'' (M @ ''mo'')"
proof
  assume s: "sublist ''12mo'' (M @ ''mo'')"
  from assms show False
  proof (elim disjE)
    assume "length M = 1"
    moreover from s have "length ''12mo'' \<le> length (M @ ''mo'')" by (rule sublist_length_le)
    ultimately show False by simp
  next
    assume "M = ''10''"
    with s show False by (simp add: sublist_Cons_right)
  next
    assume "M = ''11''"
    with s show False by (simp add: sublist_Cons_right)
  qed
qed

lemma pre12:
  "xs1 @ xs2 = ''12mo'' \<Longrightarrow>
   xs1 = [] \<or> xs1 = ''1'' \<or> xs1 = ''12'' \<or> xs1 = ''12m'' \<or> xs1 = ''12mo''"
  by (auto simp: append_eq_Cons_conv)



lemma suffix_last: "suffix xs (ys @ [c]) \<Longrightarrow> xs \<noteq> [] \<Longrightarrow> last xs = c"
  by (auto simp: suffix_def) (metis last_appendR last_snoc)

lemma no_12mo_both:
  assumes y: "0 < y" and M: "length M = 1 \<or> M = ''10'' \<or> M = ''11''"
  shows "\<not> sublist ''12mo'' (Number_toString y @ ''yr'' @ '' '' @ M @ ''mo'')"
proof
  assume "sublist ''12mo'' (Number_toString y @ ''yr'' @ '' '' @ M @ ''mo'')"
  then have "sublist ''12mo'' ((Number_toString y @ ''yr'' @ '' '') @ (M @ ''mo''))" by simp
  then consider
      (left) "sublist ''12mo'' (Number_toString y @ ''yr'' @ '' '')"
    | (right) "sublist ''12mo'' (M @ ''mo'')"
    | (split) xs1 xs2 where "''12mo'' = xs1 @ xs2" "suffix xs1 (Number_toString y @ ''yr'' @ '' '')"
        "prefix xs2 (M @ ''mo'')"
    unfolding sublist_append by blast
  then show False
  proof cases
    case left
    then have "set ''12mo'' \<subseteq> set (Number_toString y @ ''yr'' @ '' '')"
      by (rule set_mono_sublist)
    then show False using Number_toString_nonneg_chars [of y] y by auto
  next
    case right
    then show False using no12 [OF M] by simp
  next
    case split
    from split(1) have "xs1 = [] \<or> xs1 = ''1'' \<or> xs1 = ''12'' \<or> xs1 = ''12m'' \<or> xs1 = ''12mo''"
      using pre12 [of xs1 xs2] by simp
    then show False
    proof
      assume "xs1 = []"
      with split(1) have "xs2 = ''12mo''" by simp
      with split(3) have "sublist ''12mo'' (M @ ''mo'')" by (simp add: prefix_imp_sublist)
      then show False using no12 [OF M] by simp
    next
      assume ne: "xs1 = ''1'' \<or> xs1 = ''12'' \<or> xs1 = ''12m'' \<or> xs1 = ''12mo''"
      then have "xs1 \<noteq> []" by auto
      moreover from split(2) have "suffix xs1 ((Number_toString y @ ''yr'') @ [CHR '' ''])" by simp
      ultimately have "last xs1 = CHR '' ''" by (rule suffix_last [rotated])
      with ne show False by auto
    qed
  qed
qed

lemma no_m_digit: "0 \<le> y \<Longrightarrow> CHR ''m'' \<notin> set (Number_toString y)"
  using Number_toString_nonneg_chars [of y] by auto

lemma no_12mo_years: "0 < y \<Longrightarrow> \<not> sublist ''12mo'' (Number_toString y @ ''yr'')"
proof
  assume y: "0 < y" and s: "sublist ''12mo'' (Number_toString y @ ''yr'')"
  from s have "set ''12mo'' \<subseteq> set (Number_toString y @ ''yr'')" by (rule set_mono_sublist)
  then have "CHR ''m'' \<in> set (Number_toString y)" by simp
  then show False using no_m_digit [of y] y by simp
qed

lemma no_12mo:
  assumes "valid_date now"
  shows "\<not> sublist ''12mo'' (calculateCrunchrDuration tzo now)"
proof -
  obtain y m where ym: "crunchr_years_months tzo now = (y, m)" by (cases "crunchr_years_months tzo now")
  from months_range [OF assms, of tzo] ym have m: "0 \<le> m" "m \<le> 11" by simp_all
  show ?thesis
  proof (cases "0 < m")
    case True
    with m have M: "length (Number_toString m) = 1 \<or> Number_toString m = ''10''
        \<or> Number_toString m = ''11''"
      by (intro month_text_shape) simp_all
    show ?thesis
      using no_12mo_both [OF _ M] no12 [OF M] True by (simp add: crunchr_format ym)
  next
    case False
    then show ?thesis
      using no_12mo_years [of y] by (simp add: crunchr_format ym)
  qed
qed

subsection \<open>Lower-casing a key\<close>

lemma char_eq_iff_nat: "(c = d) \<longleftrightarrow> (of_char c :: nat) = of_char d"
  by (simp add: of_char_eq_iff)

lemma char_lower_v: "char_toLowerCase c = CHR ''v'' \<longleftrightarrow> c = CHR ''v'' \<or> c = CHR ''V''"
proof -
  let ?n = "of_char c :: nat"
  have lt: "?n < 256" by simp
  show ?thesis
  proof (cases "65 \<le> ?n \<and> ?n \<le> 90")
    case True
    then have "char_toLowerCase c = char_of (?n + 32)" by (simp add: char_toLowerCase_def)
    moreover have "(char_of (?n + 32) = CHR ''v'') \<longleftrightarrow> ?n = 86"
      using True by (simp add: char_eq_iff_nat [of "char_of _"] )
    moreover have "c = CHR ''V'' \<longleftrightarrow> ?n = 86" by (simp add: char_eq_iff_nat [of c])
    moreover have "c \<noteq> CHR ''v''" using True by (auto simp: char_eq_iff_nat [of c])
    ultimately show ?thesis by simp
  next
    case False
    then have "char_toLowerCase c = c" by (auto simp: char_toLowerCase_def Let_def)
    moreover have "c \<noteq> CHR ''V''" using False by (auto simp: char_eq_iff_nat [of c])
    ultimately show ?thesis by simp
  qed
qed

lemma toLowerCase_v: "toLowerCase k = ''v'' \<longleftrightarrow> k = ''v'' \<or> k = ''V''"
  by (cases k) (auto simp: toLowerCase_def char_lower_v)


subsection \<open>Class lists under the handlers\<close>

lemma classList_add_simps [simp]:
  "classList (classList_add e c s) x = (if x = e then insert c (classList s e) else classList s x)"
  "textContent (classList_add e c s) = textContent s"
  "observed (classList_add e c s) = observed s"
  by (simp_all add: classList_add_def)

lemma classList_remove_simps [simp]:
  "classList (classList_remove e c s) x = (if x = e then classList s e - {c} else classList s x)"
  "textContent (classList_remove e c s) = textContent s"
  "observed (classList_remove e c s) = observed s"
  by (simp_all add: classList_remove_def)

lemma classList_toggle_simps [simp]:
  "classList (classList_toggle e c s) x =
     (if x = e then (if c \<in> classList s e then classList s e - {c} else insert c (classList s e))
      else classList s x)"
  "textContent (classList_toggle e c s) = textContent s"
  "observed (classList_toggle e c s) = observed s"
  by (simp_all add: classList_toggle_def classList_contains_def)

lemma marked_trans: "marked t1 links s s1 \<Longrightarrow> marked t2 links s1 s2 \<Longrightarrow> marked t2 links s s2"
  by (auto simp: marked_def)

lemma forEach_remove_marked:
  "marked (\<lambda>x. False) links s (forEach (\<lambda>link. classList_remove link ''active'') links s)"
proof -
  have "marked (\<lambda>x. False) (pre @ links) s (forEach (\<lambda>link. classList_remove link ''active'') links s1)"
    if "marked (\<lambda>x. False) pre s s1" for pre s1
    using that
  proof (induction links arbitrary: pre s1)
    case Nil
    then show ?case by simp
  next
    case (Cons a links)
    have "marked (\<lambda>x. False) (pre @ [a]) s (classList_remove a ''active'' s1)"
      using Cons.prems by (auto simp: marked_def)
    from Cons.IH [OF this] show ?case by simp
  qed
  from this [of "[]" s] show ?thesis by (simp add: marked_def)
qed

lemma clear_active_marked: "marked (\<lambda>x. False) (navLinks d) s (clear_active d s)"
  unfolding clear_active_def by (rule forEach_remove_marked)

lemma forEach_mark_link_marked:
  "marked (\<lambda>x. getAttribute_href d x = ''#'' @ sid) links s (forEach (mark_link d sid) links s)"
proof -
  let ?t = "\<lambda>x. getAttribute_href d x = ''#'' @ sid"
  have "marked ?t (pre @ links) s (forEach (mark_link d sid) links s1)"
    if "marked ?t pre s s1" for pre s1
    using that
  proof (induction links arbitrary: pre s1)
    case Nil
    then show ?case by simp
  next
    case (Cons a links)
    have "marked ?t (pre @ [a]) s (mark_link d sid a s1)"
      using Cons.prems by (auto simp: marked_def mark_link_def Let_def)
    from Cons.IH [OF this] show ?case by simp
  qed
  from this [of "[]" s] show ?thesis by (simp add: marked_def)
qed


lemma forEach_check_section:
  "(case filter (in_section w sp) secs of
      [] \<Rightarrow> forEach (check_section d w sp) secs (s, af) = (s, af)
    | m # ms \<Rightarrow>
        marked (\<lambda>x. getAttribute_href d x = ''#'' @ getAttribute_id d (last (m # ms)))
          (navLinks d) s (fst (forEach (check_section d w sp) secs (s, af))) \<and>
        snd (forEach (check_section d w sp) secs (s, af)))"
proof (induction secs arbitrary: s af)
  case Nil
  then show ?case by simp
next
  case (Cons a secs)
  show ?case
  proof (cases "in_section w sp a")
    case False
    then have "forEach (check_section d w sp) (a # secs) (s, af) =
        forEach (check_section d w sp) secs (s, af)"
      by (simp add: check_section_def)
    moreover have "filter (in_section w sp) (a # secs) = filter (in_section w sp) secs"
      using False by simp
    ultimately show ?thesis using Cons.IH [of s af] by (simp only:)
  next
    case True
    let ?s1 = "forEach (mark_link d (getAttribute_id d a)) (navLinks d) s"
    have m1: "marked (\<lambda>x. getAttribute_href d x = ''#'' @ getAttribute_id d a) (navLinks d) s ?s1"
      by (rule forEach_mark_link_marked)
    have step: "check_section d w sp a (s, af) = (?s1, True)"
      using True by (simp add: check_section_def)
    show ?thesis
    proof (cases "filter (in_section w sp) secs")
      case Nil
      with Cons.IH [of ?s1 True] True m1 show ?thesis by (simp add: step)
    next
      case (Cons m ms)
      with Cons.IH [of ?s1 True] True show ?thesis
        by (auto simp: step intro: marked_trans [OF m1])
    qed
  qed
qed

lemma updateActiveNav_marked:
  "marked (active_after d w) (navLinks d) s (updateActiveNav d w s)"
proof (cases "bottomReached w")
  case True
  have c: "marked (\<lambda>x. False) (navLinks d) s (clear_active d s)" by (rule clear_active_marked)
  show ?thesis
  proof (cases "navLinks d")
    case Nil
    with True c show ?thesis by (simp add: updateActiveNav_def active_after_def marked_def)
  next
    case (Cons l ls)
    then have "last (navLinks d) \<in> set (navLinks d)" by simp
    with True c Cons show ?thesis
      by (auto simp: updateActiveNav_def active_after_def marked_def)
  qed
next
  case nb: False
  let ?sp = "scrollY w + real_of_int headerOffset"
  show ?thesis
  proof (cases "sections d \<noteq> [] \<and> ?sp < real_of_int (offsetTop w (hd (sections d)))")
    case True
    have "updateActiveNav d w s = clear_active d s"
      using nb True by (simp add: updateActiveNav_def Let_def)
    moreover have "active_after d w = (\<lambda>x. False)"
      using nb True by (simp add: active_after_def fun_eq_iff)
    ultimately show ?thesis using clear_active_marked [of d s] by simp
  next
    case na: False
    let ?st = "forEach (check_section d w ?sp) (sections d) (s, False)"
    have u: "updateActiveNav d w s = (if \<not> snd ?st then clear_active d (fst ?st) else fst ?st)"
      using nb na by (auto simp: updateActiveNav_def Let_def)
    show ?thesis
    proof (cases "filter (in_section w ?sp) (sections d)")
      case Nil
      with forEach_check_section [where w = w and sp = ?sp and secs = "sections d" and d = d and s = s
          and af = False]
      have "?st = (s, False)" by simp
      with u have "updateActiveNav d w s = clear_active d s" by simp
      moreover have "active_after d w = (\<lambda>x. False)"
        using nb na Nil by (auto simp: active_after_def current_section_def fun_eq_iff)
      ultimately show ?thesis using clear_active_marked [of d s] by simp
    next
      case (Cons m ms)
      with forEach_check_section [where w = w and sp = ?sp and secs = "sections d" and d = d and s = s
          and af = False]
      have "marked (\<lambda>x. getAttribute_href d x = ''#'' @ getAttribute_id d (last (m # ms)))
          (navLinks d) s (fst ?st)" and "snd ?st" by simp_all
      moreover have "active_after d w =
          (\<lambda>x. getAttribute_href d x = ''#'' @ getAttribute_id d (last (m # ms)))"
        using nb na Cons by (auto simp: active_after_def current_section_def fun_eq_iff)
      ultimately show ?thesis using u by simp
    qed
  qed
qed

lemma marked_contains:
  "marked tgt links s s' \<Longrightarrow> x \<in> set links \<Longrightarrow> classList_contains x ''active'' s' = tgt x"
  by (simp add: marked_def classList_contains_def)

lemma active_links_updateActiveNav:
  "active_links d (updateActiveNav d w s) = filter (active_after d w) (navLinks d)"
  unfolding active_links_def
  by (rule filter_cong [OF refl]) (rule marked_contains [OF updateActiveNav_marked])

lemma filter_key_le_1: "distinct (map f xs) \<Longrightarrow> length (filter (\<lambda>x. f x = t) xs) \<le> 1"
proof (induction xs)
  case Nil
  then show ?case by simp
next
  case (Cons a xs)
  show ?case
  proof (cases "f a = t")
    case True
    have "f x \<noteq> t" if "x \<in> set xs" for x
      using that Cons.prems True by (auto simp: image_iff)
    then have "\<forall>x\<in>set xs. f x \<noteq> t" by blast
    then have "filter (\<lambda>x. f x = t) xs = []" by (simp add: filter_empty_conv)
    with True show ?thesis by simp
  next
    case False
    with Cons show ?thesis by simp
  qed
qed

lemma filter_active_after_le_1:
  assumes "distinct (map (getAttribute_href d) (navLinks d))"
  shows "length (filter (active_after d w) (navLinks d)) \<le> 1"
proof -
  from assms have dl: "distinct (map (\<lambda>x. x) (navLinks d))" by (simp add: distinct_map)
  show ?thesis
  proof (cases "bottomReached w")
    case True
    show ?thesis
    proof (cases "navLinks d = []")
      case True
      then show ?thesis by simp
    next
      case False
      with \<open>bottomReached w\<close> have "active_after d w = (\<lambda>x. x = last (navLinks d))"
        by (simp add: active_after_def fun_eq_iff)
      with filter_key_le_1 [OF dl, of "last (navLinks d)"] show ?thesis by simp
    qed
  next
    case nb: False
    show ?thesis
    proof (cases "current_section d w")
      case None
      with nb have "active_after d w = (\<lambda>x. False)"
        by (simp add: active_after_def fun_eq_iff)
      then show ?thesis by simp
    next
      case (Some sec)
      show ?thesis
      proof (cases "sections d \<noteq> [] \<and>
          scrollY w + real_of_int headerOffset < real_of_int (offsetTop w (hd (sections d)))")
        case True
        with nb have "active_after d w = (\<lambda>x. False)"
          by (simp add: active_after_def fun_eq_iff)
        then show ?thesis by simp
      next
        case False
        with nb Some have "active_after d w =
            (\<lambda>x. getAttribute_href d x = ''#'' @ getAttribute_id d sec)"
          by (auto simp: active_after_def fun_eq_iff)
        with filter_key_le_1 [OF assms, of "''#'' @ getAttribute_id d sec"] show ?thesis by simp
      qed
    qed
  qed
qed

lemma updateActiveNav_le_1:
  "distinct (map (getAttribute_href d) (navLinks d)) \<Longrightarrow>
   length (active_links d (updateActiveNav d w s)) \<le> 1"
  unfolding active_links_updateActiveNav by (rule filter_active_after_le_1)

lemma observer_callback_classList:
  "c \<in> classList (observer_callback entries s) x \<longleftrightarrow>
   c \<in> classList s x \<or> (c = ''visible'' \<and> (x, True) \<in> set entries)"
  unfolding observer_callback_def
proof (induction entries arbitrary: s)
  case Nil
  then show ?case by simp
next
  case (Cons a entries)
  let ?s1 = "if snd a then classList_add (fst a) ''visible'' s else s"
  show ?case
  proof (cases a)
    case (Pair t b)
    with Cons [of ?s1] show ?thesis by (cases b; cases "x = t") auto
  qed
qed

lemma observer_callback_observed: "observed (observer_callback entries s) = observed s"
  unfolding observer_callback_def
  by (induction entries arbitrary: s) simp_all

lemma scroll_hint_handler_classList:
  "c \<noteq> ''hidden'' \<Longrightarrow> c \<in> classList (scroll_hint_handler d w s) x \<longleftrightarrow> c \<in> classList s x"
  by (simp add: scroll_hint_handler_def split: option.splits)

lemma scroll_hint_handler_keeps:
  "c \<in> classList s x \<Longrightarrow> c \<in> classList (scroll_hint_handler d w s) x"
  by (simp add: scroll_hint_handler_def split: option.splits)

lemma scroll_hint_handler_observed: "observed (scroll_hint_handler d w s) = observed s"
  by (simp add: scroll_hint_handler_def split: option.splits)

lemma updateActiveNav_classList:
  "classList (updateActiveNav d w s) x = classList s x \<or>
   classList (updateActiveNav d w s) x = insert ''active'' (classList s x) \<or>
   classList (updateActiveNav d w s) x = classList s x - {''active''}"
  using updateActiveNav_marked [of d w s] by (simp add: marked_def)

lemma updateActiveNav_observed: "observed (updateActiveNav d w s) = observed s"
  using updateActiveNav_marked [of d w s] by (simp add: marked_def)

lemma step_Scroll:
  "step d (Scroll w) s = scroll_hint_handler d w (updateActiveNav d w s)"
  by (simp add: step_def)

lemma step_keeps_class:
  assumes "c \<in> classList s x" and "c \<noteq> ''active''" and "c \<noteq> ''pressed''" and "c \<noteq> ''expanded''"
  shows "c \<in> classList (step d ev s) x"
proof (cases ev)
  case (Scroll w)
  from assms updateActiveNav_classList [of d w s x]
  have "c \<in> classList (updateActiveNav d w s) x" by auto
  then show ?thesis
    unfolding Scroll step_Scroll by (rule scroll_hint_handler_keeps)
next
  case (Intersection entries)
  with assms show ?thesis
    by (simp add: step_def observer_callback_classList)
next
  case (KeyDown e a)
  with assms show ?thesis
    by (auto simp: step_def keydown_handler_def split: option.splits)
next
  case (KeyUp e)
  with assms show ?thesis
    by (auto simp: step_def keyup_handler_def split: option.splits)
qed (use assms in \<open>auto simp: step_def split: option.splits\<close>)

lemma step_active_unchanged:
  assumes "\<And>w. ev \<noteq> Scroll w"
  shows "(''active'' \<in> classList (step d ev s) x) = (''active'' \<in> classList s x)"
proof (cases ev)
  case (Scroll w)
  then show ?thesis using assms [of w] by simp
next
  case (Intersection entries)
  then show ?thesis
    by (simp add: step_def observer_callback_classList)
next
  case (KeyDown e a)
  then show ?thesis
    by (auto simp: step_def keydown_handler_def split: option.splits)
next
  case (KeyUp e)
  then show ?thesis
    by (auto simp: step_def keyup_handler_def split: option.splits)
qed (auto simp: step_def split: option.splits)

lemma step_observed: "observed (step d ev s) = observed s"
  by (cases ev)
    (auto simp: step_def observer_callback_observed scroll_hint_handler_observed
      updateActiveNav_observed keydown_handler_def keyup_handler_def split: option.splits)

lemma run_observed: "observed (run d evs s) = observed s"
  by (induction evs arbitrary: s) (simp_all add: step_observed)

lemma run_keeps_visible:
  "''visible'' \<in> classList s x \<Longrightarrow> ''visible'' \<in> classList (run d evs s) x"
  by (induction evs arbitrary: s) (simp_all add: step_keeps_class)

lemma active_links_cong:
  "(\<And>x. (''active'' \<in> classList s x) = (''active'' \<in> classList s' x)) \<Longrightarrow>
   active_links d s = active_links d s'"
  by (simp add: active_links_def classList_contains_def)

lemma step_active_links_le_1:
  assumes "distinct (map (getAttribute_href d) (navLinks d))"
    and "length (active_links d s) \<le> 1"
  shows "length (active_links d (step d ev s)) \<le> 1"
proof (cases "\<exists>w. ev = Scroll w")
  case True
  then obtain w where ev: "ev = Scroll w" by blast
  have "active_links d (step d ev s) = active_links d (updateActiveNav d w s)"
    unfolding ev step_Scroll
    by (intro active_links_cong scroll_hint_handler_classList) simp
  with updateActiveNav_le_1 [OF assms(1)] show ?thesis by simp
next
  case False
  then have "active_links d (step d ev s) = active_links d s"
    by (intro active_links_cong step_active_unchanged) simp
  with assms(2) show ?thesis by simp
qed

lemma run_active_links_le_1:
  "distinct (map (getAttribute_href d) (navLinks d)) \<Longrightarrow> length (active_links d s) \<le> 1 \<Longrightarrow>
   length (active_links d (run d evs s)) \<le> 1"
proof (induction evs arbitrary: s)
  case Nil
  then show ?case by simp
next
  case (Cons ev evs)
  from Cons.prems have "length (active_links d (step d ev s)) \<le> 1"
    by (rule step_active_links_le_1)
  from Cons.IH [OF Cons.prems(1) this] show ?case by simp
qed

subsection \<open>Page load and the observer\<close>

lemma dynamic_content_frame:
  "classList (dynamic_content d env s) = classList s \<and> observed (dynamic_content d env s) = observed s"
  by (simp add: dynamic_content_def set_textContent_def Let_def split: option.splits)

lemma forEach_observe:
  "classList (forEach (\<lambda>section s. if \<not> classList_contains section ''visible'' s
        then observe section s else s) xs s) = classList s
   \<and> observed (forEach (\<lambda>section s. if \<not> classList_contains section ''visible'' s
        then observe section s else s) xs s) =
       observed s @ filter (\<lambda>x. \<not> classList_contains x ''visible'' s) xs"
proof (induction xs arbitrary: s)
  case Nil
  then show ?case by simp
next
  case (Cons a xs)
  let ?s1 = "if \<not> classList_contains a ''visible'' s then observe a s else s"
  have c: "classList ?s1 = classList s" by (simp add: observe_def)
  then have f: "(\<lambda>x. \<not> classList_contains x ''visible'' ?s1) = (\<lambda>x. \<not> classList_contains x ''visible'' s)"
    by (simp add: classList_contains_def)
  from Cons [of ?s1] c show ?case
    unfolding forEach.simps f by (simp add: observe_def)
qed

lemma observe_sections_frame:
  "classList (observe_sections d s) = classList s"
  "observed (observe_sections d s) =
     observed s @ filter (\<lambda>x. \<not> classList_contains x ''visible'' s) (all_sections d)"
  unfolding observe_sections_def using forEach_observe [of "all_sections d" s] by simp_all

lemma page_load_observed:
  "observed (page_load d env s) =
     observed s @ filter (\<lambda>x. \<not> classList_contains x ''visible'' s) (all_sections d)"
proof -
  have "(\<lambda>x. \<not> classList_contains x ''visible'' (dynamic_content d env s)) =
      (\<lambda>x. \<not> classList_contains x ''visible'' s)"
    using dynamic_content_frame [of d env s] by (simp add: classList_contains_def)
  then show ?thesis
    using dynamic_content_frame [of d env s]
    by (simp add: page_load_def updateActiveNav_observed observe_sections_frame)
qed

subsection \<open>Listeners that throw, listeners that are absent\<close>

text \<open>
  In this model, where \<^verbatim>\<open>document.body\<close> exists and \<^verbatim>\<open>e.key\<close> is a string (the script
  reads both without a check), a listener throws exactly on a keydown of \<^verbatim>\<open>v\<close> without
  modifiers while \<^verbatim>\<open>document.activeElement\<close> is \<^verbatim>\<open>null\<close>; on a page without the
  optional elements and nav links, every event but an observer callback leaves the
  state as it is.
\<close>

lemma handle_throws_iff:
  "(\<exists>err. handle d ev s = Inl err) \<longleftrightarrow>
   (\<exists>e. ev = KeyDown e None \<and> cornerLogo d \<noteq> None \<and> toLowerCase (key e) = ''v''
        \<and> \<not> metaKey e \<and> \<not> ctrlKey e)"
  by (cases ev) (auto simp: keydown_handler_def split: option.splits)

lemma absent_elements_disable:
  assumes "cornerLogo d = None" and "terminal d = None" and "footerOrigin d = None"
    and "scroll_hint d = None" and "navLinks d = []"
    and "\<And>entries. ev \<noteq> Intersection entries"
  shows "handle d ev s = Inr s"
proof (cases ev)
  case (Scroll w)
  have "marked (active_after d w) (navLinks d) s (updateActiveNav d w s)"
    by (rule updateActiveNav_marked)
  with assms(5) have "updateActiveNav d w s = s"
    by (intro dom_state.equality) (simp_all add: marked_def fun_eq_iff)
  with assms(4) Scroll show ?thesis by (simp add: scroll_hint_handler_def)
next
  case (Intersection entries)
  then show ?thesis using assms(6) [of entries] by simp
qed (use assms in simp_all)

text \<open>Unfolding these evaluates the handlers on the sample pages.\<close>

lemmas eval_defs =
  active_links_def updateActiveNav_def bottomReached_def scrollThreshold_def headerOffset_def
  check_section_def in_section_def mark_link_def classList_contains_def clear_active_def
  demo_doc_def dup_doc_def demo_window_def short_window_def blank_state_def stale_state_def

section \<open>The duration calculators\<close>

text \<open>
  Claim C2 says that for every current date on or after the milestone
  \<^verbatim>\<open>calculateYOE\<close> returns \<open>\<lfloor>5 + years_since_milestone\<rfloor>\<close> followed by \<^verbatim>\<open>+\<close>, the years
  being the elapsed milliseconds divided by a year of 365.25 days. The script divides
  and adds in doubles. At \<open>262140 \<times> 31557600000 - 1\<close> milliseconds after the milestone
  (Jan 27 of the year 264170, one millisecond before midnight, at UTC+2) the quotient
  rounds to \<open>262140 - 2\<^sup>-\<^sup>3\<^sup>5\<close>, and 5 plus that lies halfway between two doubles and
  rounds to 262145: the script returns \<^verbatim>\<open>262145+\<close> where the floor of the exact sum is
  262144.
\<close>

theorem calculateYOE_double_rounding_counterexample:
  "valid_time \<lparr>timeValue = 8274235183199999, getFullYear = 264170, getMonth = 0\<rparr>
   \<and> valid_time (yoeStartDate (- 120))
   \<and> timeValue (yoeStartDate (- 120))
       \<le> timeValue \<lparr>timeValue = 8274235183199999, getFullYear = 264170, getMonth = 0\<rparr>
   \<and> calculateYOE (- 120) \<lparr>timeValue = 8274235183199999, getFullYear = 264170, getMonth = 0\<rparr>
       = ''262145+''
   \<and> Number_toString
         \<lfloor>5 + years_since_milestone (- 120)
               \<lparr>timeValue = 8274235183199999, getFullYear = 264170, getMonth = 0\<rparr>\<rfloor> @ ''+''
       = ''262144+''"
proof -
  let ?now = "\<lparr>timeValue = 8274235183199999, getFullYear = 264170, getMonth = 0\<rparr>"
  have v: "valid_time ?now" by (simp add: valid_time_def)
  have w: "valid_time (yoeStartDate (- 120))" by (simp add: valid_time_def yoeStartDate_def)
  have m: "timeValue (yoeStartDate (- 120)) \<le> timeValue ?now" by (simp add: yoeStartDate_def)
  have "calculateYOE_totalYears (- 120) ?now = 262145" by code_simp
  then have c: "calculateYOE (- 120) ?now = ''262145+''"
    by (simp add: calculateYOE_def Number_toString_def nat_digits_small nat_digits_big)
  have "\<lfloor>5 + years_since_milestone (- 120) ?now\<rfloor> = 262144"
    by (rule floor_unique) (simp_all add: years_since_milestone_def yoeStartDate_def)
  then have e: "Number_toString \<lfloor>5 + years_since_milestone (- 120) ?now\<rfloor> @ ''+'' = ''262144+''"
    by (simp add: Number_toString_def nat_digits_small nat_digits_big)
  from v w m c e show ?thesis by (simp only: simp_thms)
qed

text \<open>
  Claim C2, amended. For every current date on or after the milestone (local midnight
  of Sep 10 2024; both are Dates, with time values in range), \<^verbatim>\<open>calculateYOE\<close>
  returns the decimal digits of \<^verbatim>\<open>totalYears\<close> followed by \<^verbatim>\<open>+\<close>; the number is at
  least 5, it does not decrease when the current date moves later, and at the
  milestone itself the result is \<^verbatim>\<open>5+\<close>. For every such
  date less than \<open>262140 \<times> 31557600000 - 1\<close> milliseconds after the milestone, the
  number is \<open>\<lfloor>5 + years_since_milestone\<rfloor>\<close>, the years being the elapsed milliseconds
  divided by a year of 365.25 days in exact arithmetic.
\<close>

theorem calculateYOE_after_milestone:
  assumes "valid_time now" and "valid_time (yoeStartDate tzo)"
    and "timeValue (yoeStartDate tzo) \<le> timeValue now"
  shows "calculateYOE tzo now = Number_toString (calculateYOE_totalYears tzo now) @ ''+''
    \<and> 5 \<le> calculateYOE_totalYears tzo now
    \<and> (timeValue now - timeValue (yoeStartDate tzo) < 262140 * 31557600000 - 1 \<longrightarrow>
          calculateYOE tzo now = Number_toString \<lfloor>5 + years_since_milestone tzo now\<rfloor> @ ''+'')
    \<and> (\<forall>later. valid_time later \<and> timeValue now \<le> timeValue later \<longrightarrow>
          calculateYOE_totalYears tzo now \<le> calculateYOE_totalYears tzo later)
    \<and> (timeValue now = timeValue (yoeStartDate tzo) \<longrightarrow> calculateYOE tzo now = ''5+'')"
proof -
  let ?d = "timeValue now - timeValue (yoeStartDate tzo)"
  from assms(3) have d: "0 \<le> ?d" by simp
  have ge: "5 \<le> calculateYOE_totalYears tzo now"
  proof -
    from yoe_chain_mono [of 0 ?d] d
    have "5 \<le> to_double (5 + to_double (to_double (rat_of_int ?d) / 31557600000))"
      by (simp only: yoe_chain_zero)
    then show ?thesis by (simp add: totalYears_unfold le_floor_iff)
  qed
  have exact: "calculateYOE_totalYears tzo now = \<lfloor>5 + years_since_milestone tzo now\<rfloor>"
    if "?d < 262140 * 31557600000 - 1"
  proof -
    from that have "?d < 8272509263999999" by simp
    from yoe_chain_exact [OF d this] show ?thesis
      by (simp add: totalYears_unfold years_since_milestone_def)
  qed
  have mono: "calculateYOE_totalYears tzo now \<le> calculateYOE_totalYears tzo later"
    if "timeValue now \<le> timeValue later" for later
  proof -
    from that have "?d \<le> timeValue later - timeValue (yoeStartDate tzo)" by simp
    from yoe_chain_mono [OF d this] show ?thesis
      unfolding totalYears_unfold by (rule floor_mono)
  qed
  have at: "calculateYOE tzo now = ''5+''" if "timeValue now = timeValue (yoeStartDate tzo)"
  proof -
    from that have "calculateYOE_totalYears tzo now = 5"
      using yoe_chain_zero by (simp add: totalYears_unfold)
    then show ?thesis
      by (simp add: calculateYOE_def Number_toString_def nat_digits_small)
  qed
  from ge exact mono at show ?thesis by (simp add: calculateYOE_def)
qed

theorem calculateYOE_after_milestone_witness:
  "valid_time (now_yoe demo_env)
   \<and> valid_time (yoeStartDate (- 120))
   \<and> timeValue (yoeStartDate (- 120)) \<le> timeValue (now_yoe demo_env)
   \<and> timeValue (now_yoe demo_env) - timeValue (yoeStartDate (- 120)) < 262140 * 31557600000 - 1
   \<and> calculateYOE (- 120) (now_yoe demo_env) = ''6+''
   \<and> calculateYOE_totalYears (- 120) (now_yoe demo_env) \<le>
       calculateYOE_totalYears (- 120) \<lparr>timeValue = 1800000000000, getFullYear = 2027, getMonth = 0\<rparr>"
proof -
  let ?later = "\<lparr>timeValue = 1800000000000, getFullYear = 2027, getMonth = 0\<rparr>"
  have v: "valid_time (now_yoe demo_env)" by (simp add: valid_time_def demo_env_def)
  have w: "valid_time (yoeStartDate (- 120))" by (simp add: valid_time_def yoeStartDate_def)
  have h: "timeValue (yoeStartDate (- 120)) \<le> timeValue (now_yoe demo_env)"
    by (simp add: yoeStartDate_def demo_env_def)
  have b: "timeValue (now_yoe demo_env) - timeValue (yoeStartDate (- 120))
      < 262140 * 31557600000 - 1"
    by (simp add: yoeStartDate_def demo_env_def)
  have l: "valid_time ?later \<and> timeValue (now_yoe demo_env) \<le> timeValue ?later"
    by (simp add: valid_time_def demo_env_def)
  have y: "\<lfloor>5 + years_since_milestone (- 120) (now_yoe demo_env)\<rfloor> = 6"
    by (rule floor_unique) (simp_all add: years_since_milestone_def yoeStartDate_def demo_env_def)
  have n: "Number_toString 6 @ ''+'' = ''6+''"
    by (simp add: Number_toString_def nat_digits_small)
  note t = calculateYOE_after_milestone [OF v w h]
  from t b have "calculateYOE (- 120) (now_yoe demo_env) =
      Number_toString \<lfloor>5 + years_since_milestone (- 120) (now_yoe demo_env)\<rfloor> @ ''+''"
    by blast
  then have c: "calculateYOE (- 120) (now_yoe demo_env) = ''6+''" by (simp only: y n)
  from t l have "calculateYOE_totalYears (- 120) (now_yoe demo_env) \<le>
      calculateYOE_totalYears (- 120) ?later"
    by blast
  with v w h b c show ?thesis by blast
qed

text \<open>
  Claim C3. For every current date, \<^verbatim>\<open>calculateCrunchrDuration\<close> subtracts calendar
  years and months from Dec 2022 and borrows a year when the month difference is
  negative; it renders \<^verbatim>\<open>Xyr Ymo\<close>, leaving out a component that is zero (or below) and
  joining two components with exactly one space; no rendered component is negative
  (the string holds no minus sign); in January 2023 the result is \<^verbatim>\<open>1mo\<close>.
\<close>

theorem calculateCrunchrDuration_rendering:
  "crunchr_years_months tzo now =
     (if getMonth now - 11 < 0 then (getFullYear now - 2022 - 1, getMonth now - 11 + 12)
      else (getFullYear now - 2022, getMonth now - 11))
   \<and> calculateCrunchrDuration tzo now =
     (let (years, months) = crunchr_years_months tzo now
      in if years > 0 \<and> months > 0
         then Number_toString years @ ''yr'' @ '' '' @ Number_toString months @ ''mo''
         else if years > 0 then Number_toString years @ ''yr''
         else if months > 0 then Number_toString months @ ''mo''
         else '''')
   \<and> CHR ''-'' \<notin> set (calculateCrunchrDuration tzo now)
   \<and> (getFullYear now = 2023 \<and> getMonth now = 0 \<longrightarrow> calculateCrunchrDuration tzo now = ''1mo'')"
proof -
  have a: "crunchr_years_months tzo now =
     (if getMonth now - 11 < 0 then (getFullYear now - 2022 - 1, getMonth now - 11 + 12)
      else (getFullYear now - 2022, getMonth now - 11))"
    by (simp add: crunchr_years_months_def crunchrStartDate_def Let_def)
  have b: "calculateCrunchrDuration tzo now = ''1mo''"
    if "getFullYear now = 2023" "getMonth now = 0"
    using that by (simp add: crunchr_format a Number_toString_def nat_digits_small nat_digits_big)
  from a b crunchr_format [of tzo now] no_minus [of tzo now] show ?thesis by blast
qed

theorem calculateCrunchrDuration_rendering_witness:
  "calculateCrunchrDuration (- 60) \<lparr>timeValue = 1673740800000, getFullYear = 2023, getMonth = 0\<rparr>
     = ''1mo''
   \<and> calculateCrunchrDuration (- 60) \<lparr>timeValue = 1741651200000, getFullYear = 2025, getMonth = 2\<rparr>
     = ''2yr 3mo''
   \<and> calculateCrunchrDuration (- 60) \<lparr>timeValue = 1701388800000, getFullYear = 2023, getMonth = 11\<rparr>
     = ''1yr''"
  using
    calculateCrunchrDuration_rendering
      [of "- 60" "\<lparr>timeValue = 1673740800000, getFullYear = 2023, getMonth = 0\<rparr>"]
    calculateCrunchrDuration_rendering
      [of "- 60" "\<lparr>timeValue = 1741651200000, getFullYear = 2025, getMonth = 2\<rparr>"]
    calculateCrunchrDuration_rendering
      [of "- 60" "\<lparr>timeValue = 1701388800000, getFullYear = 2023, getMonth = 11\<rparr>"]
  by (simp add: Number_toString_def nat_digits_small nat_digits_big)

text \<open>
  Claim C9. When the current date lies in the calendar month and year of the tenure
  start date, \<^verbatim>\<open>calculateCrunchrDuration\<close> returns the empty string.
\<close>

theorem calculateCrunchrDuration_start_month:
  assumes "getFullYear now = getFullYear (crunchrStartDate tzo)"
    and "getMonth now = getMonth (crunchrStartDate tzo)"
  shows "calculateCrunchrDuration tzo now = ''''"
  using assms
  by (simp add: calculateCrunchrDuration_def filter_Boolean_def crunchr_yearStr_def
      crunchr_monthStr_def crunchr_years_months_def)

theorem calculateCrunchrDuration_start_month_witness:
  "getFullYear \<lparr>timeValue = 1671062400000, getFullYear = 2022, getMonth = 11\<rparr>
     = getFullYear (crunchrStartDate (- 60))
   \<and> getMonth \<lparr>timeValue = 1671062400000, getFullYear = 2022, getMonth = 11\<rparr>
     = getMonth (crunchrStartDate (- 60))
   \<and> calculateCrunchrDuration (- 60)
       \<lparr>timeValue = 1671062400000, getFullYear = 2022, getMonth = 11\<rparr> = ''''"
proof -
  let ?now = "\<lparr>timeValue = 1671062400000, getFullYear = 2022, getMonth = 11\<rparr>"
  have y: "getFullYear ?now = getFullYear (crunchrStartDate (- 60))"
    by (simp add: crunchrStartDate_def)
  have m: "getMonth ?now = getMonth (crunchrStartDate (- 60))"
    by (simp add: crunchrStartDate_def)
  from calculateCrunchrDuration_start_month [OF y m] y m show ?thesis by simp
qed

text \<open>
  Claim C10. For a date whose month is in \<open>0..11\<close>, the raw month difference lies in
  \<open>-11..11\<close> and the borrow step maps it into \<open>0..11\<close>; a rendered month component has a
  value from 1 to 11, so it is one of \<^verbatim>\<open>1mo\<close> to \<^verbatim>\<open>11mo\<close>, and the output never contains
  \<^verbatim>\<open>12mo\<close> or a minus sign.
\<close>

theorem crunchr_month_component_range:
  assumes "valid_date now"
  shows "- 11 \<le> getMonth now - getMonth (crunchrStartDate tzo)
    \<and> getMonth now - getMonth (crunchrStartDate tzo) \<le> 11
    \<and> 0 \<le> snd (crunchr_years_months tzo now) \<and> snd (crunchr_years_months tzo now) \<le> 11
    \<and> (crunchr_monthStr tzo now \<noteq> '''' \<longrightarrow>
          1 \<le> snd (crunchr_years_months tzo now) \<and> snd (crunchr_years_months tzo now) \<le> 11
          \<and> crunchr_monthStr tzo now = Number_toString (snd (crunchr_years_months tzo now)) @ ''mo''
          \<and> crunchr_monthStr tzo now \<in>
              {''1mo'', ''2mo'', ''3mo'', ''4mo'', ''5mo'', ''6mo'', ''7mo'', ''8mo'', ''9mo'',
               ''10mo'', ''11mo''})
    \<and> \<not> sublist ''12mo'' (calculateCrunchrDuration tzo now)
    \<and> CHR ''-'' \<notin> set (calculateCrunchrDuration tzo now)"
proof -
  let ?m = "snd (crunchr_years_months tzo now)"
  have raw: "- 11 \<le> getMonth now - getMonth (crunchrStartDate tzo)"
    "getMonth now - getMonth (crunchrStartDate tzo) \<le> 11"
    using assms by (simp_all add: valid_date_def crunchrStartDate_def)
  have rng: "0 \<le> ?m" "?m \<le> 11"
    using months_range [OF assms, of tzo] by simp_all
  have str: "1 \<le> ?m \<and> ?m \<le> 11 \<and> crunchr_monthStr tzo now = Number_toString ?m @ ''mo''
      \<and> crunchr_monthStr tzo now \<in>
              {''1mo'', ''2mo'', ''3mo'', ''4mo'', ''5mo'', ''6mo'', ''7mo'', ''8mo'', ''9mo'',
               ''10mo'', ''11mo''}"
    if ne: "crunchr_monthStr tzo now \<noteq> ''''"
  proof -
    from ne have pos: "0 < ?m" by (auto simp: crunchr_monthStr_def Let_def split: if_splits)
    then have eq: "crunchr_monthStr tzo now = Number_toString ?m @ ''mo''"
      by (simp add: crunchr_monthStr_def)
    from pos rng have "Number_toString ?m @ ''mo'' \<in>
        {''1mo'', ''2mo'', ''3mo'', ''4mo'', ''5mo'', ''6mo'', ''7mo'', ''8mo'', ''9mo'',
         ''10mo'', ''11mo''}"
      by (intro month_label) simp_all
    with eq pos rng show ?thesis by simp
  qed
  from raw rng str no_12mo [OF assms, of tzo] no_minus [of tzo now] show ?thesis by blast
qed

theorem crunchr_month_component_range_witness:
  "valid_date \<lparr>timeValue = 1762128000000, getFullYear = 2026, getMonth = 10\<rparr>
   \<and> snd (crunchr_years_months 0 \<lparr>timeValue = 1762128000000, getFullYear = 2026, getMonth = 10\<rparr>)
       = 11
   \<and> crunchr_monthStr 0 \<lparr>timeValue = 1762128000000, getFullYear = 2026, getMonth = 10\<rparr>
       = ''11mo''
   \<and> \<not> sublist ''12mo''
       (calculateCrunchrDuration 0 \<lparr>timeValue = 1762128000000, getFullYear = 2026, getMonth = 10\<rparr>)"
proof -
  let ?now = "\<lparr>timeValue = 1762128000000, getFullYear = 2026, getMonth = 10\<rparr>"
  have v: "valid_date ?now" by (simp add: valid_date_def)
  have m: "snd (crunchr_years_months 0 ?now) = 11"
    by (simp add: crunchr_years_months_def crunchrStartDate_def)
  have ne: "crunchr_monthStr 0 ?now \<noteq> ''''"
    by (simp add: crunchr_monthStr_def m)
  from crunchr_month_component_range [OF v, of 0] ne m v show ?thesis
    by (simp add: Number_toString_def nat_digits_small nat_digits_big)
qed

section \<open>Navigation, visibility and the key handlers\<close>

text \<open>
  Claim C1 says that after every run of \<^verbatim>\<open>updateActiveNav\<close> at most one nav link is
  active, for every configuration of sections and nav links. The handler marks every
  link whose \<^verbatim>\<open>href\<close> names the current section, so on a page with two nav links to the
  first section, scrolled into that section, both are active.
\<close>

theorem two_links_one_target_counterexample:
  "\<not> length (active_links dup_doc (updateActiveNav dup_doc (demo_window 600) blank_state)) \<le> 1"
  by (simp add: eval_defs)

text \<open>
  Claim C1, amended. When no two nav links have the same \<^verbatim>\<open>href\<close>, every run of
  \<^verbatim>\<open>updateActiveNav\<close>, from any state, leaves at most one nav link active, and so does
  the page load followed by any sequence of events.
\<close>

theorem at_most_one_active_link:
  assumes "distinct (map (getAttribute_href d) (navLinks d))"
  shows "length (active_links d (updateActiveNav d w s)) \<le> 1
    \<and> length (active_links d (run d evs (page_load d env s))) \<le> 1"
proof -
  have one: "length (active_links d (updateActiveNav d w' s')) \<le> 1" for w' s'
    using assms by (rule updateActiveNav_le_1)
  have "length (active_links d (page_load d env s)) \<le> 1"
    unfolding page_load_def by (rule one)
  with assms have "length (active_links d (run d evs (page_load d env s))) \<le> 1"
    by (rule run_active_links_le_1)
  with one show ?thesis by simp
qed

theorem at_most_one_active_link_witness:
  "distinct (map (getAttribute_href demo_doc) (navLinks demo_doc))
   \<and> length (active_links demo_doc (updateActiveNav demo_doc (demo_window 600) stale_state)) \<le> 1
   \<and> length (active_links demo_doc (run demo_doc demo_events (page_load demo_doc demo_env stale_state)))
       \<le> 1"
proof -
  have h: "distinct (map (getAttribute_href demo_doc) (navLinks demo_doc))"
    by (simp add: demo_doc_def)
  from at_most_one_active_link [OF h] h show ?thesis by blast
qed

text \<open>
  Claim C4. Whenever \<^verbatim>\<open>innerHeight + scrollY >= body.offsetHeight - 50\<close>,
  \<^verbatim>\<open>updateActiveNav\<close> leaves the last nav link active and every other nav link
  inactive, whatever the sections are and wherever the scroll position lies among them.
\<close>

theorem bottom_activates_last_link:
  assumes "bottomReached w"
  shows "(navLinks d \<noteq> [] \<longrightarrow>
            classList_contains (last (navLinks d)) ''active'' (updateActiveNav d w s))
    \<and> (\<forall>link\<in>set (navLinks d). link \<noteq> last (navLinks d) \<longrightarrow>
            \<not> classList_contains link ''active'' (updateActiveNav d w s))
    \<and> active_links d (updateActiveNav d w s) = filter (\<lambda>link. link = last (navLinks d)) (navLinks d)"
proof -
  have m: "marked (active_after d w) (navLinks d) s (updateActiveNav d w s)"
    by (rule updateActiveNav_marked)
  have t: "active_after d w link = (navLinks d \<noteq> [] \<and> link = last (navLinks d))" for link
    using assms by (simp add: active_after_def)
  have c: "classList_contains link ''active'' (updateActiveNav d w s) = (link = last (navLinks d))"
    if "link \<in> set (navLinks d)" for link
    using marked_contains [OF m that] t [of link] that by auto
  have "active_links d (updateActiveNav d w s) =
      filter (\<lambda>link. link = last (navLinks d)) (navLinks d)"
    unfolding active_links_def by (rule filter_cong [OF refl]) (rule c)
  moreover have "navLinks d \<noteq> [] \<longrightarrow>
      classList_contains (last (navLinks d)) ''active'' (updateActiveNav d w s)"
    using c [of "last (navLinks d)"] by simp
  ultimately show ?thesis using c by blast
qed

theorem bottom_activates_last_link_witness:
  "bottomReached short_window
   \<and> in_section short_window (scrollY short_window + real_of_int headerOffset) 10
   \<and> classList_contains 4 ''active'' (updateActiveNav demo_doc short_window stale_state)
   \<and> \<not> classList_contains 2 ''active'' (updateActiveNav demo_doc short_window stale_state)
   \<and> \<not> classList_contains 3 ''active'' (updateActiveNav demo_doc short_window stale_state)"
proof -
  have h: "bottomReached short_window"
    by (simp add: bottomReached_def short_window_def scrollThreshold_def)
  have i: "in_section short_window (scrollY short_window + real_of_int headerOffset) 10"
    by (simp add: in_section_def short_window_def headerOffset_def)
  from bottom_activates_last_link [OF h, of demo_doc stale_state] h i show ?thesis
    by (simp add: demo_doc_def)
qed

text \<open>
  Claim C8. For a fixed geometry, running \<^verbatim>\<open>updateActiveNav\<close> twice gives the state
  that running it once gives, and which nav links are active afterwards is the same
  from every starting state.
\<close>

theorem updateActiveNav_idempotent:
  "updateActiveNav d w (updateActiveNav d w s) = updateActiveNav d w s
   \<and> (\<forall>link\<in>set (navLinks d).
        classList_contains link ''active'' (updateActiveNav d w s) =
        classList_contains link ''active'' (updateActiveNav d w s'))"
proof -
  let ?u = "updateActiveNav d w"
  have m: "marked (active_after d w) (navLinks d) t (?u t)" for t
    by (rule updateActiveNav_marked)
  have "classList (?u (?u s)) = classList (?u s)"
    using m [of s] m [of "?u s"] by (auto simp: marked_def fun_eq_iff)
  moreover have "textContent (?u (?u s)) = textContent (?u s)"
    using m [of "?u s"] by (simp add: marked_def)
  moreover have "observed (?u (?u s)) = observed (?u s)"
    using m [of "?u s"] by (simp add: marked_def)
  ultimately have "?u (?u s) = ?u s" by (intro dom_state.equality) simp_all
  moreover have "classList_contains link ''active'' (?u s) = classList_contains link ''active'' (?u s')"
    if "link \<in> set (navLinks d)" for link
    using marked_contains [OF m [of s] that] marked_contains [OF m [of s'] that] by simp
  ultimately show ?thesis by blast
qed

theorem updateActiveNav_idempotent_witness:
  "3 \<in> set (navLinks demo_doc)
   \<and> updateActiveNav demo_doc (demo_window 1500)
         (updateActiveNav demo_doc (demo_window 1500) stale_state)
       = updateActiveNav demo_doc (demo_window 1500) stale_state
   \<and> classList_contains 3 ''active'' (updateActiveNav demo_doc (demo_window 1500) stale_state)
       = classList_contains 3 ''active'' (updateActiveNav demo_doc (demo_window 1500) blank_state)
   \<and> classList_contains 3 ''active'' (updateActiveNav demo_doc (demo_window 1500) blank_state)"
proof -
  have h: "3 \<in> set (navLinks demo_doc)" by (simp add: demo_doc_def)
  have a: "classList_contains 3 ''active'' (updateActiveNav demo_doc (demo_window 1500) blank_state)"
    by (simp add: eval_defs)
  from updateActiveNav_idempotent [of demo_doc "demo_window 1500" stale_state blank_state] h a
  show ?thesis by blast
qed

text \<open>
  Claim C5. An element that carries \<^verbatim>\<open>visible\<close> still carries it after any event (an
  observer callback, a scroll, or any other listener of the script) and after any
  sequence of events; the observer's targets are, from the page load on, exactly the
  sections that did not carry \<^verbatim>\<open>visible\<close> at load, so a section visible at load is
  never registered.
\<close>

theorem visible_never_removed:
  "(classList_contains x ''visible'' s \<longrightarrow> classList_contains x ''visible'' (step d ev s))
   \<and> (classList_contains x ''visible'' s \<longrightarrow> classList_contains x ''visible'' (run d evs s))
   \<and> observed (run d evs (page_load d env s)) =
       observed s @ filter (\<lambda>section. \<not> classList_contains section ''visible'' s) (all_sections d)
   \<and> (observed s = [] \<and> classList_contains x ''visible'' s \<longrightarrow>
        x \<notin> set (observed (run d evs (page_load d env s))))"
proof -
  have a: "classList_contains x ''visible'' (step d ev s)" if "classList_contains x ''visible'' s"
    using that unfolding classList_contains_def by (intro step_keeps_class) simp_all
  have b: "classList_contains x ''visible'' (run d evs s)" if "classList_contains x ''visible'' s"
    using that unfolding classList_contains_def by (rule run_keeps_visible)
  have c: "observed (run d evs (page_load d env s)) =
       observed s @ filter (\<lambda>section. \<not> classList_contains section ''visible'' s) (all_sections d)"
    by (simp add: run_observed page_load_observed)
  have "x \<notin> set (observed (run d evs (page_load d env s)))"
    if "observed s = []" "classList_contains x ''visible'' s"
    using that by (simp add: c)
  with a b c show ?thesis by blast
qed

theorem visible_never_removed_witness:
  "classList_contains 10 ''visible'' stale_state
   \<and> observed stale_state = []
   \<and> classList_contains 10 ''visible'' (run demo_doc demo_events stale_state)
   \<and> classList_contains 10 ''visible''
       (step demo_doc (Intersection [(10, False)]) stale_state)
   \<and> 10 \<notin> set (observed (run demo_doc demo_events (page_load demo_doc demo_env stale_state)))
   \<and> observed (run demo_doc demo_events (page_load demo_doc demo_env stale_state)) = [11, 12, 13]"
proof -
  have h: "classList_contains 10 ''visible'' stale_state"
    by (simp add: classList_contains_def stale_state_def)
  have o: "observed stale_state = []" by (simp add: stale_state_def)
  have f: "filter (\<lambda>section. \<not> classList_contains section ''visible'' stale_state)
      (all_sections demo_doc) = [11, 12, 13]"
    by (simp add: classList_contains_def stale_state_def demo_doc_def)
  from visible_never_removed
    [of 10 stale_state demo_doc "Intersection [(10, False)]" demo_events demo_env] h o f
  show ?thesis by simp
qed

text \<open>
  Claim C6 says that every DOM lookup is null-checked before its result is
  dereferenced. On a page with a corner logo, a keydown of \<^verbatim>\<open>v\<close> without modifiers
  while \<^verbatim>\<open>document.activeElement\<close> is \<^verbatim>\<open>null\<close> reads \<^verbatim>\<open>tagName\<close> of \<^verbatim>\<open>null\<close> and throws.
\<close>

theorem keydown_null_activeElement_throws:
  "handle demo_doc (KeyDown \<lparr>key = ''v'', metaKey = False, ctrlKey = False\<rparr> None) blank_state
     = Inl TypeError"
  by (simp add: demo_doc_def keydown_handler_def toLowerCase_v)

text \<open>
  Claim C7. On a page with a corner logo and a focused element, a keydown whose key
  is \<^verbatim>\<open>v\<close> or \<^verbatim>\<open>V\<close> adds \<^verbatim>\<open>pressed\<close> to the corner logo if and only if neither the meta
  key nor the ctrl key is held and the focused element is not an \<^verbatim>\<open>INPUT\<close>, not a
  \<^verbatim>\<open>TEXTAREA\<close> and not content-editable (otherwise the state is unchanged); a keyup with
  that key removes \<^verbatim>\<open>pressed\<close>.
\<close>

theorem v_key_pressed_class:
  assumes "key e = ''v'' \<or> key e = ''V''" and "cornerLogo d = Some cl"
  shows "handle d (KeyDown e (Some a)) s =
      Inr (if \<not> metaKey e \<and> \<not> ctrlKey e \<and> tagName d a \<noteq> ''INPUT'' \<and> tagName d a \<noteq> ''TEXTAREA''
              \<and> \<not> isContentEditable d a
           then classList_add cl ''pressed'' s else s)
    \<and> (classList_contains cl ''pressed'' (step d (KeyDown e (Some a)) s) \<longleftrightarrow>
         (\<not> metaKey e \<and> \<not> ctrlKey e \<and> tagName d a \<noteq> ''INPUT'' \<and> tagName d a \<noteq> ''TEXTAREA''
            \<and> \<not> isContentEditable d a)
         \<or> classList_contains cl ''pressed'' s)
    \<and> handle d (KeyUp e) s = Inr (classList_remove cl ''pressed'' s)
    \<and> \<not> classList_contains cl ''pressed'' (step d (KeyUp e) s)"
proof -
  from assms(1) have k: "toLowerCase (key e) = ''v''" by (simp add: toLowerCase_v)
  have d: "handle d (KeyDown e (Some a)) s =
      Inr (if \<not> metaKey e \<and> \<not> ctrlKey e \<and> tagName d a \<noteq> ''INPUT'' \<and> tagName d a \<noteq> ''TEXTAREA''
              \<and> \<not> isContentEditable d a
           then classList_add cl ''pressed'' s else s)"
    using k assms(2) by (simp add: keydown_handler_def)
  have u: "handle d (KeyUp e) s = Inr (classList_remove cl ''pressed'' s)"
    using k assms(2) by (simp add: keyup_handler_def)
  from d u show ?thesis
    by (simp add: step_def classList_contains_def)
qed

theorem v_key_pressed_class_witness:
  "(key \<lparr>key = ''V'', metaKey = False, ctrlKey = False\<rparr> = ''v''
      \<or> key \<lparr>key = ''V'', metaKey = False, ctrlKey = False\<rparr> = ''V'')
   \<and> cornerLogo demo_doc = Some 20
   \<and> classList_contains 20 ''pressed''
       (step demo_doc (KeyDown \<lparr>key = ''V'', metaKey = False, ctrlKey = False\<rparr> (Some 1)) blank_state)
   \<and> \<not> classList_contains 20 ''pressed''
       (step demo_doc (KeyDown \<lparr>key = ''V'', metaKey = False, ctrlKey = False\<rparr> (Some 40)) blank_state)
   \<and> \<not> classList_contains 20 ''pressed''
       (step demo_doc (KeyUp \<lparr>key = ''V'', metaKey = False, ctrlKey = False\<rparr>)
          (step demo_doc (KeyDown \<lparr>key = ''V'', metaKey = False, ctrlKey = False\<rparr> (Some 1))
             blank_state))"
proof -
  let ?e = "\<lparr>key = ''V'', metaKey = False, ctrlKey = False\<rparr>"
  have k: "key ?e = ''v'' \<or> key ?e = ''V''" by simp
  have c: "cornerLogo demo_doc = Some 20" by (simp add: demo_doc_def)
  have t: "tagName demo_doc 1 = ''BODY''" "tagName demo_doc 40 = ''INPUT''"
    "\<not> isContentEditable demo_doc 1"
    by (simp_all add: demo_doc_def)
  have b: "\<not> classList_contains 20 ''pressed'' blank_state"
    by (simp add: classList_contains_def blank_state_def)
  from v_key_pressed_class [OF k c, of 1 blank_state]
    v_key_pressed_class [OF k c, of 40 blank_state]
    v_key_pressed_class [OF k c, of 1
      "step demo_doc (KeyDown ?e (Some 1)) blank_state"]
    k c t b
  show ?thesis by simp
qed

end
